theory Spec2Isabelle
  imports Main
begin

unbundle bit_operations_syntax

section \<open>The Go standard library functions that recordfile.go calls\<close>

text \<open>
  A Go \<open>string\<close> is a sequence of bytes: here a \<open>char list\<close>, one \<open>char\<close> per byte.
  \<open>byte c\<close> is the numeric value of a byte.  The functions of this section are the
  ones of packages \<open>strings\<close>, \<open>unicode\<close>, \<open>unicode/utf8\<close> and \<open>strconv\<close> that
  \<open>recordfile.go\<close> calls, with the arguments it calls them with (\<open>Split\<close> with no
  limit, \<open>ParseInt\<close> and \<open>ParseUint\<close> with base 0).
\<close>

abbreviation byte :: "char \<Rightarrow> nat" where
  "byte c \<equiv> of_char c"

subsection \<open>strings.HasPrefix, strings.HasSuffix, strings.Index, strings.Split\<close>

definition HasPrefix :: "string \<Rightarrow> string \<Rightarrow> bool" where
  "HasPrefix s p = (length s \<ge> length p \<and> take (length p) s = p)"

definition HasSuffix :: "string \<Rightarrow> string \<Rightarrow> bool" where
  "HasSuffix s p = (length s \<ge> length p \<and> drop (length s - length p) s = p)"

text \<open>\<open>strings_Index s sep\<close> is \<open>strings.Index\<close>: the position of the first occurrence of \<open>sep\<close> in \<open>s\<close>;
  Go's \<open>-1\<close> is \<open>None\<close>.\<close>

fun strings_Index :: "string \<Rightarrow> string \<Rightarrow> nat option" where
  "strings_Index [] sep = (if sep = [] then Some 0 else None)"
| "strings_Index (c # cs) sep =
     (if HasPrefix (c # cs) sep then Some 0 else map_option Suc (strings_Index cs sep))"

subsection \<open>unicode/utf8.DecodeRuneInString and DecodeLastRuneInString\<close>

definition RuneError :: nat where
  "RuneError = 0xFFFD"

text \<open>The result is the pair (rune, width in bytes).  The case distinction on the
  first byte is Go's table \<open>first\<close> with its accept ranges.\<close>

fun DecodeRune :: "string \<Rightarrow> nat \<times> nat" where
  "DecodeRune [] = (RuneError, 0)"
| "DecodeRune (c0 # cs) =
     (let s0 = byte c0 in
      if s0 < 0x80 then (s0, 1)
      else if s0 < 0xC2 \<or> 0xF4 < s0 then (RuneError, 1)
      else
        let sz = (if s0 < 0xE0 then 2 else if s0 < 0xF0 then 3 else (4::nat));
            lo = (if s0 = 0xE0 then 0xA0 else if s0 = 0xF0 then 0x90 else 0x80);
            hi = (if s0 = 0xED then 0x9F else if s0 = 0xF4 then 0x8F else 0xBF)
        in if Suc (length cs) < sz then (RuneError, 1)
           else
             let s1 = byte (cs ! 0) in
             if s1 < lo \<or> hi < s1 then (RuneError, 1)
             else if sz \<le> 2 then (push_bit 6 (s0 AND 0x1F) OR (s1 AND 0x3F), 2)
             else
               let s2 = byte (cs ! 1) in
               if s2 < 0x80 \<or> 0xBF < s2 then (RuneError, 1)
               else if sz \<le> 3 then
                 (push_bit 12 (s0 AND 0x0F) OR push_bit 6 (s1 AND 0x3F) OR (s2 AND 0x3F), 3)
               else
                 let s3 = byte (cs ! 2) in
                 if s3 < 0x80 \<or> 0xBF < s3 then (RuneError, 1)
                 else (push_bit 18 (s0 AND 0x07) OR push_bit 12 (s1 AND 0x3F)
                         OR push_bit 6 (s2 AND 0x3F) OR (s3 AND 0x3F), 4))"

definition RuneStart :: "char \<Rightarrow> bool" where
  "RuneStart c = (byte c AND 0xC0 \<noteq> 0x80)"

text \<open>The backward scan of \<open>DecodeLastRuneInString\<close>: from \<open>start\<close> down to
  \<open>lim\<close>, stop at the first byte that starts a rune.  Go's \<open>start\<close> may end at
  \<open>-1\<close> and is then set to 0, which is the result here at once.\<close>

fun scan_back :: "string \<Rightarrow> nat \<Rightarrow> nat \<Rightarrow> nat" where
  "scan_back s lim 0 = 0"
| "scan_back s lim (Suc k) =
     (if Suc k < lim then Suc k
      else if RuneStart (s ! Suc k) then Suc k
      else scan_back s lim k)"

definition DecodeLastRune :: "string \<Rightarrow> nat \<times> nat" where
  "DecodeLastRune s =
     (let end = length s in
      if end = 0 then (RuneError, 0)
      else
        let r = byte (s ! (end - 1)) in
        if r < 0x80 then (r, 1)
        else
          let lim = end - 4;
              start = (if end < 2 then 0 else scan_back s lim (end - 2));
              (r', size') = DecodeRune (drop start s)
          in if start + size' \<noteq> end then (RuneError, 1) else (r', size'))"

subsection \<open>unicode.IsSpace and strings.TrimSpace\<close>

definition IsSpace :: "nat \<Rightarrow> bool" where
  "IsSpace r =
     (if r \<le> 0xFF then r \<in> {0x09, 0x0A, 0x0B, 0x0C, 0x0D, 0x20, 0x85, 0xA0}
      else r = 0x1680 \<or> (0x2000 \<le> r \<and> r \<le> 0x200A) \<or> r = 0x2028 \<or> r = 0x2029
           \<or> r = 0x202F \<or> r = 0x205F \<or> r = 0x3000)"

lemma DecodeRune_width: "s \<noteq> [] \<Longrightarrow> 0 < snd (DecodeRune s)"
  by (cases s) (simp_all add: Let_def)

lemma scan_back_le: "scan_back s lim k \<le> k"
  by (induction k) auto

lemma DecodeLastRune_width: "s \<noteq> [] \<Longrightarrow> 0 < snd (DecodeLastRune s)"
proof -
  assume ne: "s \<noteq> []"
  define start where
    "start = (if length s < 2 then 0 else scan_back s (length s - 4) (length s - 2))"
  have lt: "start < length s"
    using ne scan_back_le [of s "length s - 4" "length s - 2"]
    by (auto simp: start_def)
  obtain r w where d: "DecodeRune (drop start s) = (r, w)"
    by (cases "DecodeRune (drop start s)")
  have "snd (DecodeLastRune s) =
          (if byte (s ! (length s - 1)) < 0x80 then 1
           else if start + w \<noteq> length s then 1 else w)"
    using ne d by (simp add: DecodeLastRune_def Let_def start_def [symmetric])
  with lt show ?thesis by auto
qed

lemma Index_Some_nonempty: "sep \<noteq> [] \<Longrightarrow> strings_Index s sep = Some m \<Longrightarrow> s \<noteq> []"
  by (cases s) simp_all

text \<open>\<open>TrimLeftSpace\<close> is \<open>strings.TrimLeftFunc(s, unicode.IsSpace)\<close>: it walks the
  runes from the front and stops at the first one that is not a space.\<close>

function TrimLeftSpace :: "string \<Rightarrow> string" where
  "TrimLeftSpace s =
     (if s = [] then []
      else if IsSpace (fst (DecodeRune s)) then TrimLeftSpace (drop (snd (DecodeRune s)) s)
      else s)"
  by pat_completeness auto
termination
  by (relation "measure length") (auto simp: DecodeRune_width)

text \<open>\<open>TrimRightSpace\<close> is \<open>strings.TrimRightFunc(s, unicode.IsSpace)\<close>: it walks
  the runes from the back with \<open>DecodeLastRuneInString\<close>.  \<open>lastIndexNonSpace s i\<close>
  is \<open>lastIndexFunc\<close> at loop counter \<open>i\<close>: the start of the last rune of
  \<open>take i s\<close> that is not a space; Go's \<open>-1\<close> is \<open>None\<close>.\<close>

function lastIndexNonSpace :: "string \<Rightarrow> nat \<Rightarrow> nat option" where
  "lastIndexNonSpace s i =
     (if i = 0 \<or> length s < i then None
      else if \<not> IsSpace (fst (DecodeLastRune (take i s)))
           then Some (i - snd (DecodeLastRune (take i s)))
      else lastIndexNonSpace s (i - snd (DecodeLastRune (take i s))))"
  by pat_completeness auto
termination
proof (relation "measure (\<lambda>(s, i). i)")
  show "wf (measure (\<lambda>(s, i). i))" by simp
next
  fix s :: string and i :: nat
  assume "\<not> (i = 0 \<or> length s < i)"
  then have "take i s \<noteq> []" by auto
  then have "0 < snd (DecodeLastRune (take i s))" by (rule DecodeLastRune_width)
  with \<open>\<not> (i = 0 \<or> length s < i)\<close>
  show "((s, i - snd (DecodeLastRune (take i s))), (s, i)) \<in> measure (\<lambda>(s, i). i)"
    by simp
qed

definition TrimRightSpace :: "string \<Rightarrow> string" where
  "TrimRightSpace s =
     (case lastIndexNonSpace s (length s) of
        None \<Rightarrow> []
      | Some i \<Rightarrow>
          if byte (s ! i) \<ge> 0x80 then take (i + snd (DecodeRune (drop i s))) s
          else take (Suc i) s)"

definition TrimSpace :: "string \<Rightarrow> string" where
  "TrimSpace s = TrimRightSpace (TrimLeftSpace s)"

subsection \<open>strings.Split\<close>

text \<open>With an empty separator Go splits after each UTF-8 sequence (\<open>explode\<close>).\<close>

function explode :: "string \<Rightarrow> string list" where
  "explode s =
     (if s = [] then []
      else take (snd (DecodeRune s)) s # explode (drop (snd (DecodeRune s)) s))"
  by pat_completeness auto
termination
  by (relation "measure length") (auto simp: DecodeRune_width)

text \<open>With a separator that is not empty: cut at the first occurrence and go on
  behind it, until there is none.\<close>

function Split :: "string \<Rightarrow> string \<Rightarrow> string list" where
  "Split s sep =
     (if sep = [] then explode s
      else case strings_Index s sep of
             None \<Rightarrow> [s]
           | Some m \<Rightarrow> take m s # Split (drop (m + length sep) s) sep)"
  by pat_completeness auto
termination
proof (relation "measure (\<lambda>(s, sep). length s)")
  show "wf (measure (\<lambda>(s, sep). length s))" by simp
next
  fix s sep :: string and m :: nat
  assume "sep \<noteq> []" and "strings_Index s sep = Some m"
  then have "s \<noteq> []" by (rule Index_Some_nonempty)
  with \<open>sep \<noteq> []\<close>
  show "((drop (m + length sep) s, sep), (s, sep)) \<in> measure (\<lambda>(s, sep). length s)"
    by (cases s) (auto simp: neq_Nil_conv)
qed

text \<open>The equations of the four loops above are unfolded on demand only.\<close>

declare TrimLeftSpace.simps [simp del] lastIndexNonSpace.simps [simp del]
  explode.simps [simp del] Split.simps [simp del]

subsection \<open>strconv.ParseBool, strconv.ParseUint, strconv.ParseInt\<close>

datatype numerr = ErrSyntax | ErrRange | ErrBitSize

definition ParseBool :: "string \<Rightarrow> numerr + bool" where
  "ParseBool str =
     (if str \<in> {''1'', ''t'', ''T'', ''true'', ''TRUE'', ''True''} then Inr True
      else if str \<in> {''0'', ''f'', ''F'', ''false'', ''FALSE'', ''False''} then Inr False
      else Inl ErrSyntax)"

text \<open>\<open>lower c\<close> is Go's \<open>c | ('x' - 'X')\<close>, on the byte value.\<close>

definition lower :: "char \<Rightarrow> nat" where
  "lower c = byte c OR 0x20"

text \<open>The value of one digit in \<open>ParseUint\<close>'s loop; \<open>None\<close> is the \<open>default\<close>
  branch of its switch (a syntax error).\<close>

definition digit :: "char \<Rightarrow> nat option" where
  "digit c =
     (if 0x30 \<le> byte c \<and> byte c \<le> 0x39 then Some (byte c - 0x30)
      else if 0x61 \<le> lower c \<and> lower c \<le> 0x7A then Some (lower c - 0x61 + 10)
      else None)"

definition maxUint64 :: nat where
  "maxUint64 = 2 ^ 64 - 1"

text \<open>The digit loop of \<open>ParseUint\<close> called with base 0 (so that underscores are
  skipped and remembered).  \<open>n\<close> is the \<open>uint64\<close> accumulator, \<open>us\<close> the flag
  \<open>underscores\<close>.  \<open>Inl\<close> is an early return with the value and the error.  The
  sum \<open>n + d\<close> is a \<open>uint64\<close> sum and wraps around.\<close>

fun uint_loop :: "nat \<Rightarrow> nat \<Rightarrow> string \<Rightarrow> nat \<Rightarrow> bool \<Rightarrow> (nat \<times> numerr) + (nat \<times> bool)" where
  "uint_loop base maxVal [] n us = Inr (n, us)"
| "uint_loop base maxVal (c # cs) n us =
     (if c = CHR ''_'' then uint_loop base maxVal cs n True
      else case digit c of
             None \<Rightarrow> Inl (0, ErrSyntax)
           | Some d \<Rightarrow>
               if d \<ge> base then Inl (0, ErrSyntax)
               else if n \<ge> maxUint64 div base + 1 then Inl (maxVal, ErrRange)
               else
                 let n' = n * base;
                     n1 = (n' + d) mod 2 ^ 64
                 in if n1 < n' \<or> n1 > maxVal then Inl (maxVal, ErrRange)
                    else uint_loop base maxVal cs n1 us)"

text \<open>\<open>underscoreOK\<close>: underscores must separate digits or follow the base prefix.
  \<open>saw\<close> is the last character class seen: \<open>CHR ''^''\<close> at the beginning,
  \<open>CHR ''0''\<close> a digit or a base prefix, \<open>CHR ''_''\<close> an underscore,
  \<open>CHR ''!''\<close> none of them.\<close>

fun underscore_loop :: "bool \<Rightarrow> char \<Rightarrow> string \<Rightarrow> bool" where
  "underscore_loop hex saw [] = (saw \<noteq> CHR ''_'')"
| "underscore_loop hex saw (c # cs) =
     (if (0x30 \<le> byte c \<and> byte c \<le> 0x39) \<or> (hex \<and> 0x61 \<le> lower c \<and> lower c \<le> 0x66)
      then underscore_loop hex (CHR ''0'') cs
      else if c = CHR ''_'' then
        (if saw \<noteq> CHR ''0'' then False else underscore_loop hex (CHR ''_'') cs)
      else if saw = CHR ''_'' then False
      else underscore_loop hex (CHR ''!'') cs)"

definition underscoreOK :: "string \<Rightarrow> bool" where
  "underscoreOK s0 =
     (let s = (if length s0 \<ge> 1 \<and> (s0 ! 0 = CHR ''-'' \<or> s0 ! 0 = CHR ''+'') then drop 1 s0 else s0)
      in if length s \<ge> 2 \<and> s ! 0 = CHR ''0''
            \<and> (lower (s ! 1) = 0x62 \<or> lower (s ! 1) = 0x6F \<or> lower (s ! 1) = 0x78)
         then underscore_loop (lower (s ! 1) = 0x78) (CHR ''0'') (drop 2 s)
         else underscore_loop False (CHR ''^'') s)"

text \<open>\<open>ParseUint s 0 bitSize\<close>.  The result is Go's pair (value, error).  \<open>IntSize\<close>
  is the size of \<open>int\<close> on the platform.  The base and the rest of the string come
  from the prefix; \<open>maxVal\<close> is \<open>uint64(1)<<bitSize - 1\<close>, computed in \<open>uint64\<close>.\<close>

definition base_prefix :: "string \<Rightarrow> nat \<times> string" where
  "base_prefix s =
     (if s ! 0 = CHR ''0'' then
        (if length s \<ge> 3 \<and> lower (s ! 1) = 0x62 then (2, drop 2 s)
         else if length s \<ge> 3 \<and> lower (s ! 1) = 0x6F then (8, drop 2 s)
         else if length s \<ge> 3 \<and> lower (s ! 1) = 0x78 then (16, drop 2 s)
         else (8, drop 1 s))
      else (10, s))"

definition ParseUint :: "nat \<Rightarrow> string \<Rightarrow> nat \<Rightarrow> nat \<times> numerr option" where
  "ParseUint IntSize s0 bitSize0 =
     (if s0 = [] then (0, Some ErrSyntax)
      else
        let (base, s) = base_prefix s0 in
        if 64 < bitSize0 then (0, Some ErrBitSize)
        else
          let bitSize = (if bitSize0 = 0 then IntSize else bitSize0);
              maxVal = (2 ^ bitSize mod 2 ^ 64 + (2 ^ 64 - 1)) mod 2 ^ 64
          in case uint_loop base maxVal s 0 False of
               Inl (v, e) \<Rightarrow> (v, Some e)
             | Inr (n, us) \<Rightarrow>
                 if us \<and> \<not> underscoreOK s0 then (0, Some ErrSyntax) else (n, None))"

text \<open>\<open>int64 u\<close> is the conversion of a \<open>uint64\<close> to \<open>int64\<close> (two's complement),
  \<open>neg64 x\<close> the negation of an \<open>int64\<close>, which wraps at the least value.\<close>

definition int64 :: "nat \<Rightarrow> int" where
  "int64 u = (int u + 2 ^ 63) mod 2 ^ 64 - 2 ^ 63"

definition neg64 :: "int \<Rightarrow> int" where
  "neg64 x = (- x + 2 ^ 63) mod 2 ^ 64 - 2 ^ 63"

definition ParseInt :: "nat \<Rightarrow> string \<Rightarrow> nat \<Rightarrow> int \<times> numerr option" where
  "ParseInt IntSize s0 bitSize0 =
     (if s0 = [] then (0, Some ErrSyntax)
      else
        let neg = (s0 ! 0 = CHR ''-'');
            s = (if s0 ! 0 = CHR ''+'' \<or> s0 ! 0 = CHR ''-'' then drop 1 s0 else s0);
            (un, err) = ParseUint IntSize s bitSize0
        in if err \<noteq> None \<and> err \<noteq> Some ErrRange then (0, err)
           else
             let bitSize = (if bitSize0 = 0 then IntSize else bitSize0);
                 cutoff = 2 ^ (bitSize - 1) mod 2 ^ 64
             in if \<not> neg \<and> un \<ge> cutoff then (int64 (cutoff - 1), Some ErrRange)
                else if neg \<and> un > cutoff then (neg64 (int64 cutoff), Some ErrRange)
                else (if neg then neg64 (int64 un) else int64 un, None))"

section \<open>The data of recordfile.go\<close>

subsection \<open>Types as package reflect shows them\<close>

datatype kind =
    KInvalid | KBool | KInt | KInt8 | KInt16 | KInt32 | KInt64
  | KUint | KUint8 | KUint16 | KUint32 | KUint64 | KUintptr
  | KFloat32 | KFloat64 | KComplex64 | KComplex128
  | KArray | KChan | KFunc | KInterface | KMap | KPointer | KSlice | KString | KStruct
  | KUnsafePointer

text \<open>The kinds are those of \<open>reflect.Kind\<close>, each with a \<open>K\<close> before its
  name.  A \<open>reflect.Type\<close> of a field: the code asks for its \<open>Kind()\<close> and its
  \<open>Bits()\<close> only; \<open>TypeString\<close> tells two types of one kind apart.\<close>

record rtype =
  TypeString :: string
  Kind :: kind

text \<open>A \<open>reflect.StructField\<close>.  A field is exported when its \<open>PkgPath\<close> is
  empty.  \<open>Tag\<close> is the whole tag string of the field.\<close>

record field =
  Name :: string
  PkgPath :: string
  Type :: rtype
  Tag :: string

text \<open>The type of the value given to \<open>New\<close>: its kind and, for a struct, its fields.
  \<open>reflect.TypeOf(nil)\<close> is \<open>None\<close>.\<close>

record stype =
  SKind :: kind
  Fields :: "field list"

subsection \<open>Values\<close>

text \<open>The value of a field of a record.  Floating point values and the values of
  struct, array, slice and map fields are not modelled further: \<open>'f\<close> and \<open>'j\<close>
  are the types of what \<open>strconv.ParseFloat\<close> and \<open>json.Unmarshal\<close> produce.\<close>

datatype ('f, 'j) payload =
    PBool bool | PInt int | PUint nat | PFloat 'f | PString string | PComp 'j

text \<open>An \<open>interface{}\<close> value: \<open>nil\<close>, a pointer to a record struct on the heap
  (\<open>reflect.New(typeRecord).Interface()\<close>), or a value with its dynamic type
  (\<open>field.Interface()\<close>).\<close>

datatype ('f, 'j) iface = Nil | Ptr nat | Val rtype "('f, 'j) payload"

text \<open>\<open>type Index map[interface{}]interface{}\<close>: the entries in the order of their
  insertion.  The heap holds the record structs, each the list of its field values;
  a pointer is a position in it.\<close>

type_synonym ('f, 'j) Index = "(('f, 'j) iface \<times> ('f, 'j) iface) list"

type_synonym ('f, 'j) heap = "('f, 'j) payload list list"

record ('f, 'j) RecordFile =
  Comma :: string
  Comment :: string
  LineEndStr :: string
  typeRecord :: "stype option"
  records :: "('f, 'j) iface list"
  indexes :: "('f, 'j) Index list"

text \<open>The package variables \<open>Comma\<close>, \<open>Comment\<close> and \<open>LineEndStr\<close>.  They are
  exported variables, so a program may have assigned them; \<open>initial_globals\<close> are
  the values they are declared with.\<close>

record globals =
  pkgComma :: string
  pkgComment :: string
  pkgLineEndStr :: string

definition initial_globals :: globals where
  "initial_globals =
     \<lparr>pkgComma = ''~'', pkgComment = ''#'', pkgLineEndStr = ''!####!'' @ [CHR 0x0A]\<rparr>"

subsection \<open>What the code takes from outside\<close>

text \<open>
  \<^item> \<open>IntSize\<close>: the size of \<open>int\<close> and \<open>uint\<close> in bits (32 or 64);
  \<^item> \<open>ReadAll name\<close>: \<open>os.Open\<close> followed by \<open>ioutil.ReadAll\<close>: the content of
    the file, or the error of either call;
  \<^item> \<open>ParseFloat s bits\<close>: \<open>strconv.ParseFloat\<close>; \<open>float_zero\<close> is the zero value
    of a float field and \<open>float_eq\<close> is Go's \<open>==\<close> on floats (a NaN differs from
    itself);
  \<^item> \<open>Unmarshal data t v\<close>: \<open>json.Unmarshal\<close> of \<open>data\<close> into a field of type \<open>t\<close>
    that holds \<open>v\<close>; \<open>comp_zero t\<close> is the zero value of type \<open>t\<close>;
    \<open>comp_hashable v\<close> tells whether \<open>v\<close> may be a map key (using a slice or a map
    as a key panics), and \<open>comp_eq\<close> is \<open>==\<close> on such keys.
\<close>

record ('f, 'j) env =
  IntSize :: nat
  ReadAll :: "string \<Rightarrow> string + string"
  ParseFloat :: "string \<Rightarrow> nat \<Rightarrow> string + 'f"
  float_zero :: 'f
  float_eq :: "'f \<Rightarrow> 'f \<Rightarrow> bool"
  Unmarshal :: "string \<Rightarrow> rtype \<Rightarrow> 'j \<Rightarrow> string + 'j"
  comp_zero :: "rtype \<Rightarrow> 'j"
  comp_hashable :: "'j \<Rightarrow> bool"
  comp_eq :: "'j \<Rightarrow> 'j \<Rightarrow> bool"

subsection \<open>Errors and outcomes\<close>

text \<open>The errors are the ones the code builds with \<open>errors.New\<close> and \<open>fmt.Errorf\<close>,
  each with the arguments of its format:
  \<^item> \<open>IOError e\<close>: the error of \<open>os.Open\<close> or \<open>ioutil.ReadAll\<close>, returned as it is;
  \<^item> \<open>NotAStruct\<close>: \<open>"st must be a struct"\<close>;
  \<^item> \<open>InvalidType name kind\<close>: \<open>"invalid type: %v %s"\<close>;
  \<^item> \<open>CouldNotIndex kind i name\<close>: \<open>"could not index %s field %v %v"\<close>;
  \<^item> \<open>FormatError n got want\<close>: \<open>"line %v, field count mismatch: %v (file) %v (st)"\<close>;
  \<^item> \<open>CoercionError n i cause\<close>: \<open>"parse field (row=%v, col=%v) error: %v"\<close>;
  \<^item> \<open>DuplicateIndexError n i\<close>: \<open>"index error: duplicate at (row=%v, col=%v)"\<close>.
  The first three of the second group are the spec's SchemaError.\<close>

datatype cause = NumError numerr | FloatError string | JsonError string

datatype error =
    IOError string
  | NotAStruct
  | InvalidType string kind
  | CouldNotIndex kind nat string
  | FormatError nat nat nat
  | CoercionError nat nat cause
  | DuplicateIndexError nat nat

text \<open>A call either panics or returns.\<close>

datatype 'a outcome = Panic | Return 'a

text \<open>Inside a loop of \<open>Read\<close>: a panic, a \<open>return err\<close> out of the loop, or the
  loop going on (and at last ending) with its state.\<close>

datatype 's flow = Panics | Returns error 's | Continues 's

section \<open>The functions of recordfile.go\<close>

subsection \<open>New\<close>

text \<open>The loop of \<open>New\<close> over the fields, \<open>i\<close> the loop counter: the first switch
  accepts eighteen kinds, the second refuses the tag \<open>index\<close> on three of them.\<close>

fun New_loop :: "field list \<Rightarrow> nat \<Rightarrow> error option" where
  "New_loop [] i = None"
| "New_loop (f # fs) i =
     (let kind = Kind (Type f) in
      if kind \<notin> {KBool, KInt, KInt8, KInt16, KInt32, KInt64, KUint, KUint8, KUint16, KUint32, KUint64,
                  KFloat32, KFloat64, KString, KStruct, KArray, KSlice, KMap}
      then Some (InvalidType (Name f) kind)
      else if Tag f = ''index'' \<and> kind \<in> {KStruct, KSlice, KMap}
      then Some (CouldNotIndex kind i (Name f))
      else New_loop fs (Suc i))"

definition New :: "stype option \<Rightarrow> error + ('f, 'j) RecordFile" where
  "New st =
     (case st of
        None \<Rightarrow> Inl NotAStruct
      | Some t \<Rightarrow>
          if SKind t \<noteq> KStruct then Inl NotAStruct
          else (case New_loop (Fields t) 0 of
                  Some err \<Rightarrow> Inl err
                | None \<Rightarrow>
                    Inr \<lparr>Comma = [], Comment = [], LineEndStr = [],
                         typeRecord = Some t, records = [], indexes = []\<rparr>))"

subsection \<open>ReadData\<close>

text \<open>The loop over the chunks, \<open>rows\<close> the result so far.  In the source the
  variable \<open>err\<close> is \<open>nil\<close> throughout the loop (the function has returned
  otherwise), so its two tests of \<open>err\<close> do nothing and are left out.\<close>

fun ReadData_loop :: "string \<Rightarrow> string \<Rightarrow> string list \<Rightarrow> string list list \<Rightarrow> string list list" where
  "ReadData_loop comma comment [] rows = rows"
| "ReadData_loop comma comment (l # ls) rows =
     (if l = [] then ReadData_loop comma comment ls rows
      else
        let line = (if HasSuffix l [CHR 0x0A] then take (length l - 1) l else l) in
        if HasPrefix line comment then ReadData_loop comma comment ls rows
        else ReadData_loop comma comment ls (rows @ [Split line comma]))"

definition ReadData :: "('f, 'j) env \<Rightarrow> ('f, 'j) RecordFile \<Rightarrow> string \<Rightarrow> error + string list list" where
  "ReadData E rf fileName =
     (case ReadAll E fileName of
        Inl err \<Rightarrow> Inl (IOError err)
      | Inr fileContent \<Rightarrow>
          Inr (ReadData_loop (Comma rf) (Comment rf)
                 (Split fileContent (LineEndStr rf)) []))"

subsection \<open>Read: one field\<close>

definition CanSet :: "field \<Rightarrow> bool" where
  "CanSet f = (PkgPath f = [])"

text \<open>\<open>f.Type.Bits()\<close> for the kinds the code asks it for.\<close>

definition Bits :: "('f, 'j) env \<Rightarrow> kind \<Rightarrow> nat" where
  "Bits E k =
     (if k = KInt \<or> k = KUint then IntSize E
      else if k = KInt8 \<or> k = KUint8 then 8
      else if k = KInt16 \<or> k = KUint16 then 16
      else if k = KInt32 \<or> k = KUint32 \<or> k = KFloat32 then 32
      else 64)"

text \<open>\<open>SetInt\<close> and \<open>SetUint\<close> store an \<open>int64\<close> or \<open>uint64\<close> in a field of
  \<open>bits\<close> bits by conversion, which cuts the value to the width.\<close>

definition SetInt :: "nat \<Rightarrow> int \<Rightarrow> int" where
  "SetInt bits x = (x + 2 ^ (bits - 1)) mod 2 ^ bits - 2 ^ (bits - 1)"

definition SetUint :: "nat \<Rightarrow> nat \<Rightarrow> nat" where
  "SetUint bits x = x mod 2 ^ bits"

text \<open>The zero value of a field, as \<open>reflect.New\<close> makes it.\<close>

definition zero :: "('f, 'j) env \<Rightarrow> rtype \<Rightarrow> ('f, 'j) payload" where
  "zero E t =
     (let k = Kind t in
      if k = KBool then PBool False
      else if k \<in> {KInt, KInt8, KInt16, KInt32, KInt64} then PInt 0
      else if k \<in> {KUint, KUint8, KUint16, KUint32, KUint64, KUintptr} then PUint 0
      else if k \<in> {KFloat32, KFloat64} then PFloat (float_zero E)
      else if k = KString then PString []
      else PComp (comp_zero E t))"

text \<open>The chain of tests on \<open>kind\<close> in the loop over the fields: \<open>cur\<close> is the value
  the field holds, the result is the error \<open>err\<close> or the value the field holds after.
  A kind that no branch names leaves the field as it is.\<close>

definition coerce :: "('f, 'j) env \<Rightarrow> field \<Rightarrow> ('f, 'j) payload \<Rightarrow> string \<Rightarrow> cause + ('f, 'j) payload" where
  "coerce E f cur strField =
     (let kind = Kind (Type f) in
      if kind = KBool then
        (case ParseBool strField of
           Inl e \<Rightarrow> Inl (NumError e)
         | Inr v \<Rightarrow> Inr (PBool v))
      else if kind = KInt \<or> kind = KInt8 \<or> kind = KInt16 \<or> kind = KInt32 \<or> kind = KInt64 then
        (let strField' = (if TrimSpace strField = [] then ''0'' else strField) in
         case ParseInt (IntSize E) strField' (Bits E kind) of
           (v, Some e) \<Rightarrow> Inl (NumError e)
         | (v, None) \<Rightarrow> Inr (PInt (SetInt (Bits E kind) v)))
      else if kind = KUint \<or> kind = KUint8 \<or> kind = KUint16 \<or> kind = KUint32 \<or> kind = KUint64 then
        (let strField' = (if TrimSpace strField = [] then ''0'' else strField) in
         case ParseUint (IntSize E) strField' (Bits E kind) of
           (v, Some e) \<Rightarrow> Inl (NumError e)
         | (v, None) \<Rightarrow> Inr (PUint (SetUint (Bits E kind) v)))
      else if kind = KFloat32 \<or> kind = KFloat64 then
        (let strField' = (if TrimSpace strField = [] then ''0'' else strField) in
         case ParseFloat E strField' (Bits E kind) of
           Inl e \<Rightarrow> Inl (FloatError e)
         | Inr v \<Rightarrow> Inr (PFloat v))
      else if kind = KString then Inr (PString strField)
      else if kind = KStruct \<or> kind = KArray \<or> kind = KSlice \<or> kind = KMap then
        (case cur of
           PComp j \<Rightarrow>
             (case Unmarshal E strField (Type f) j of
                Inl e \<Rightarrow> Inl (JsonError e)
              | Inr j' \<Rightarrow> Inr (PComp j'))
         | _ \<Rightarrow> Inr cur)
      else Inr cur)"

subsection \<open>Index maps\<close>

text \<open>Go's \<open>==\<close> on two \<open>interface{}\<close> values: the same dynamic type and equal
  values.  A map finds a key by it.\<close>

fun payload_eq :: "('f, 'j) env \<Rightarrow> ('f, 'j) payload \<Rightarrow> ('f, 'j) payload \<Rightarrow> bool" where
  "payload_eq E (PFloat x) (PFloat y) = float_eq E x y"
| "payload_eq E (PComp x) (PComp y) = comp_eq E x y"
| "payload_eq E p q = (p = q)"

fun key_eq :: "('f, 'j) env \<Rightarrow> ('f, 'j) iface \<Rightarrow> ('f, 'j) iface \<Rightarrow> bool" where
  "key_eq E (Val t p) (Val t' p') = (t = t' \<and> payload_eq E p p')"
| "key_eq E k k' = (k = k')"

fun hashable :: "('f, 'j) env \<Rightarrow> ('f, 'j) iface \<Rightarrow> bool" where
  "hashable E (Val t (PComp j)) = comp_hashable E j"
| "hashable E k = True"

text \<open>\<open>v, ok := m[k]\<close> and \<open>m[k] = v\<close>.  Both panic on a key that cannot be hashed;
  the callers test \<open>hashable\<close> before.\<close>

fun map_lookup :: "('f, 'j) env \<Rightarrow> ('f, 'j) Index \<Rightarrow> ('f, 'j) iface \<Rightarrow> ('f, 'j) iface option" where
  "map_lookup E [] k = None"
| "map_lookup E ((k', v') # m) k = (if key_eq E k k' then Some v' else map_lookup E m k)"

fun map_assign :: "('f, 'j) env \<Rightarrow> ('f, 'j) Index \<Rightarrow> ('f, 'j) iface \<Rightarrow> ('f, 'j) iface \<Rightarrow> ('f, 'j) Index" where
  "map_assign E [] k v = [(k, v)]"
| "map_assign E ((k', v') # m) k v =
     (if key_eq E k k' then (k', v) # m else (k', v') # map_assign E m k v)"

subsection \<open>Read: the loops\<close>

text \<open>The loop over the fields of data row \<open>n\<close>, whose struct is at address \<open>a\<close>
  of the heap and whose interface value \<open>records[n-1]\<close> is \<open>rec\<close>.  \<open>fs\<close> are the
  fields from position \<open>i\<close> on, \<open>iIndex\<close> is the variable of that name.  The state
  is the heap and the slice \<open>indexes\<close>.  A field that cannot be set is passed over
  by \<open>continue\<close>, before its value is parsed and before its index is looked at.\<close>

fun field_loop ::
  "('f, 'j) env \<Rightarrow> nat \<Rightarrow> nat \<Rightarrow> ('f, 'j) iface \<Rightarrow> string list \<Rightarrow> field list \<Rightarrow> nat \<Rightarrow> nat \<Rightarrow>
   ('f, 'j) heap \<times> ('f, 'j) Index list \<Rightarrow> (('f, 'j) heap \<times> ('f, 'j) Index list) flow" where
  "field_loop E n a rec line [] i iIndex st = Continues st"
| "field_loop E n a rec line (f # fs) i iIndex (h, idxs) =
     (if \<not> CanSet f then field_loop E n a rec line fs (Suc i) iIndex (h, idxs)
      else
        case coerce E f (h ! a ! i) (line ! i) of
          Inl err \<Rightarrow> Returns (CoercionError n i err) (h, idxs)
        | Inr v \<Rightarrow>
            let h' = h[a := (h ! a)[i := v]] in
            if Tag f = ''index'' then
              (if length idxs \<le> iIndex then Panics
               else
                 let index = idxs ! iIndex;
                     key = Val (Type f) v
                 in if \<not> hashable E key then Panics
                    else if map_lookup E index key \<noteq> None
                    then Returns (DuplicateIndexError n i) (h', idxs)
                    else field_loop E n a rec line fs (Suc i) (Suc iIndex)
                           (h', idxs[iIndex := map_assign E index key rec]))
            else field_loop E n a rec line fs (Suc i) iIndex (h', idxs))"

text \<open>The loop over the data rows: \<open>rows\<close> are \<open>lines[n:]\<close>.  The state is the
  heap, the slice \<open>records\<close> and the slice \<open>indexes\<close>.  \<open>reflect.New\<close> puts a
  struct of zero values at the end of the heap.\<close>

fun row_loop ::
  "('f, 'j) env \<Rightarrow> field list \<Rightarrow> nat \<Rightarrow> string list list \<Rightarrow>
   ('f, 'j) heap \<times> ('f, 'j) iface list \<times> ('f, 'j) Index list \<Rightarrow>
   (('f, 'j) heap \<times> ('f, 'j) iface list \<times> ('f, 'j) Index list) flow" where
  "row_loop E fs n [] st = Continues st"
| "row_loop E fs n (line # rows) (h, recs, idxs) =
     (let a = length h;
          h1 = h @ [map (\<lambda>f. zero E (Type f)) fs]
      in if length recs \<le> n - 1 then Panics
         else
           let recs' = recs[n - 1 := Ptr a] in
           if length line \<noteq> length fs
           then Returns (FormatError n (length line) (length fs)) (h1, recs', idxs)
           else
             (case field_loop E n a (recs' ! (n - 1)) line fs 0 0 (h1, idxs) of
                Panics \<Rightarrow> Panics
              | Returns err (h2, idxs2) \<Rightarrow> Returns err (h2, recs', idxs2)
              | Continues (h2, idxs2) \<Rightarrow> row_loop E fs (Suc n) rows (h2, recs', idxs2)))"

subsection \<open>Read\<close>

text \<open>The state of a call is the heap and the \<open>RecordFile\<close> the method is called
  on; the result is the state after the call and the error returned (\<open>None\<close> is
  \<open>nil\<close>).  \<open>make([]interface{}, len(lines)-1)\<close> panics when \<open>lines\<close> is empty, and
  \<open>typeRecord.NumField()\<close> panics when \<open>typeRecord\<close> is \<open>nil\<close> or not a struct
  type (\<open>New\<close> gives neither).\<close>

definition set_defaults :: "globals \<Rightarrow> ('f, 'j) RecordFile \<Rightarrow> ('f, 'j) RecordFile" where
  "set_defaults G rf =
     rf\<lparr>Comma := (if Comma rf = [] then pkgComma G else Comma rf),
        Comment := (if Comment rf = [] then pkgComment G else Comment rf),
        LineEndStr := (if LineEndStr rf = [] then pkgLineEndStr G else LineEndStr rf)\<rparr>"

definition Read ::
  "('f, 'j) env \<Rightarrow> globals \<Rightarrow> ('f, 'j) heap \<times> ('f, 'j) RecordFile \<Rightarrow> string \<Rightarrow>
   ((('f, 'j) heap \<times> ('f, 'j) RecordFile) \<times> error option) outcome" where
  "Read E G st name =
     (let h = fst st;
          rf = set_defaults G (snd st)
      in case ReadData E rf name of
           Inl err \<Rightarrow> Return ((h, rf), Some err)
         | Inr lines \<Rightarrow>
             if lines = [] then Panic
             else
               (case typeRecord rf of
                  None \<Rightarrow> Panic
                | Some t \<Rightarrow>
                    if SKind t \<noteq> KStruct then Panic
                    else
                      let fs = Fields t;
                          recs = replicate (length lines - 1) Nil;
                          idxs = map (\<lambda>f. []) (filter (\<lambda>f. Tag f = ''index'') fs)
                      in (case row_loop E fs 1 (drop 1 lines) (h, recs, idxs) of
                            Panics \<Rightarrow> Panic
                          | Returns err (h', recs', idxs') \<Rightarrow> Return ((h', rf), Some err)
                          | Continues (h', recs', idxs') \<Rightarrow>
                              Return ((h', rf\<lparr>records := recs', indexes := idxs'\<rparr>), None))))"

subsection \<open>Record, NumRecord, Indexes, Index\<close>

text \<open>The argument \<open>i\<close> is a Go \<open>int\<close>.  Indexing a slice outside its bounds
  panics.  \<open>Indexes\<close> returns a map or \<open>nil\<close> (\<open>None\<close>).\<close>

definition Record :: "('f, 'j) RecordFile \<Rightarrow> int \<Rightarrow> ('f, 'j) iface outcome" where
  "Record rf i =
     (if 0 \<le> i \<and> i < int (length (records rf)) then Return (records rf ! nat i) else Panic)"

definition NumRecord :: "('f, 'j) RecordFile \<Rightarrow> int" where
  "NumRecord rf = int (length (records rf))"

definition Indexes :: "('f, 'j) RecordFile \<Rightarrow> int \<Rightarrow> ('f, 'j) Index option outcome" where
  "Indexes rf i =
     (if i \<ge> int (length (indexes rf)) then Return None
      else if i < 0 then Panic
      else Return (Some (indexes rf ! nat i)))"

text \<open>\<open>index[i]\<close> of a key that is not in the map is \<open>nil\<close>; of a key that cannot be
  hashed it panics.\<close>

definition Index :: "('f, 'j) env \<Rightarrow> ('f, 'j) RecordFile \<Rightarrow> ('f, 'j) iface \<Rightarrow> ('f, 'j) iface outcome" where
  "Index E rf i =
     (case Indexes rf 0 of
        Panic \<Rightarrow> Panic
      | Return None \<Rightarrow> Return Nil
      | Return (Some index) \<Rightarrow>
          if \<not> hashable E i then Panic
          else (case map_lookup E index i of None \<Rightarrow> Return Nil | Some v \<Rightarrow> Return v))"

section \<open>Properties of the loops of Read\<close>

text \<open>A field is \<open>indexed\<close> when the loop over the fields reaches its index: it
  can be set and its tag is \<open>index\<close>.  \<open>slot_of fs j\<close> is the value of \<open>iIndex\<close>
  when the loop is at field \<open>j\<close>.\<close>

definition indexed :: "field \<Rightarrow> bool" where
  "indexed f = (CanSet f \<and> Tag f = ''index'')"

definition slot_of :: "field list \<Rightarrow> nat \<Rightarrow> nat" where
  "slot_of fs j = length (filter indexed (take j fs))"

lemma slot_of_0: "slot_of fs 0 = 0" by (simp add: slot_of_def)
lemma slot_of_Suc: "slot_of (f # fs) (Suc j) = (if indexed f then Suc (slot_of fs j) else slot_of fs j)"
  by (simp add: slot_of_def)

lemma map_assign_append:
  "map_lookup E m k = None \<Longrightarrow> map_assign E m k v = m @ [(k, v)]"
  by (induction m) (auto split: if_splits)

lemma map_lookup_append_Some:
  "map_lookup E m k = Some v \<Longrightarrow> map_lookup E (m @ m') k = Some v"
  by (induction m) (auto split: if_splits)

lemma map_lookup_append_None:
  "map_lookup E m k = None \<Longrightarrow> map_lookup E (m @ m') k = map_lookup E m' k"
  by (induction m) (auto split: if_splits)

lemma map_lookup_None_iff:
  "map_lookup E m k = None \<longleftrightarrow> (\<forall>(k', v) \<in> set m. \<not> key_eq E k k')"
  by (induction m) (auto split: if_splits)



subsection \<open>One turn of the loop over the fields\<close>

definition field_step ::
  "('f, 'j) env \<Rightarrow> nat \<Rightarrow> nat \<Rightarrow> ('f, 'j) iface \<Rightarrow> string list \<Rightarrow> field \<Rightarrow> nat \<Rightarrow> nat \<Rightarrow>
   ('f, 'j) heap \<times> ('f, 'j) Index list \<Rightarrow> (('f, 'j) heap \<times> ('f, 'j) Index list) flow" where
  "field_step E n a rec line f i iIndex st = field_loop E n a rec line [f] i iIndex st"

lemma field_step_skip:
  "\<not> CanSet f \<Longrightarrow> field_step E n a rec line f i iIndex st = Continues st"
  by (cases st) (simp add: field_step_def)

lemma field_step_err:
  "CanSet f \<Longrightarrow> coerce E f (h ! a ! i) (line ! i) = Inl err \<Longrightarrow>
   field_step E n a rec line f i iIndex (h, idxs) = Returns (CoercionError n i err) (h, idxs)"
  by (simp add: field_step_def)

lemma field_step_plain:
  "CanSet f \<Longrightarrow> coerce E f (h ! a ! i) (line ! i) = Inr v \<Longrightarrow> Tag f \<noteq> ''index'' \<Longrightarrow>
   field_step E n a rec line f i iIndex (h, idxs) = Continues (h[a := (h ! a)[i := v]], idxs)"
  by (simp add: field_step_def)

lemma field_step_index:
  "CanSet f \<Longrightarrow> coerce E f (h ! a ! i) (line ! i) = Inr v \<Longrightarrow> Tag f = ''index'' \<Longrightarrow>
   field_step E n a rec line f i iIndex (h, idxs) =
     (if length idxs \<le> iIndex \<or> \<not> hashable E (Val (Type f) v) then Panics
      else if map_lookup E (idxs ! iIndex) (Val (Type f) v) \<noteq> None
      then Returns (DuplicateIndexError n i) (h[a := (h ! a)[i := v]], idxs)
      else Continues (h[a := (h ! a)[i := v]],
                      idxs[iIndex := map_assign E (idxs ! iIndex) (Val (Type f) v) rec]))"
  by (simp add: field_step_def Let_def)

lemma field_loop_Cons:
  "field_loop E n a rec line (f # fs) i iIndex st =
     (case field_step E n a rec line f i iIndex st of
        Panics \<Rightarrow> Panics
      | Returns err st' \<Rightarrow> Returns err st'
      | Continues st' \<Rightarrow>
          field_loop E n a rec line fs (Suc i) (if indexed f then Suc iIndex else iIndex) st')"
proof -
  obtain h idxs where st: "st = (h, idxs)" by (cases st)
  show ?thesis
  proof (cases "CanSet f")
    case False
    then show ?thesis by (simp add: st field_step_skip indexed_def)
  next
    case True
    show ?thesis
    proof (cases "coerce E f (h ! a ! i) (line ! i)")
      case (Inl err)
      with True show ?thesis by (simp add: st field_step_err)
    next
      case (Inr v)
      show ?thesis
      proof (cases "Tag f = ''index''")
        case False
        with True Inr show ?thesis by (simp add: st field_step_plain indexed_def)
      next
        case tag: True
        with True Inr show ?thesis
          by (simp add: st field_step_index indexed_def Let_def)
      qed
    qed
  qed
qed


lemma field_step_Continues:
  assumes "field_step E n a rec line f i iIndex (h, idxs) = Continues (h1, idxs1)"
  shows "(\<not> CanSet f \<and> h1 = h \<and> idxs1 = idxs) \<or>
         (CanSet f \<and> (\<exists>v. coerce E f (h ! a ! i) (line ! i) = Inr v \<and>
            h1 = h[a := (h ! a)[i := v]] \<and>
            (if Tag f = ''index''
             then iIndex < length idxs \<and> hashable E (Val (Type f) v) \<and>
                  map_lookup E (idxs ! iIndex) (Val (Type f) v) = None \<and>
                  idxs1 = idxs[iIndex := idxs ! iIndex @ [(Val (Type f) v, rec)]]
             else idxs1 = idxs)))"
proof (cases "CanSet f")
  case False
  with assms show ?thesis by (simp add: field_step_skip)
next
  case True
  show ?thesis
  proof (cases "coerce E f (h ! a ! i) (line ! i)")
    case (Inl err)
    with True assms show ?thesis by (simp add: field_step_err)
  next
    case (Inr v)
    show ?thesis
    proof (cases "Tag f = ''index''")
      case False
      with True Inr assms show ?thesis by (simp add: field_step_plain)
    next
      case tag: True
      with True Inr assms show ?thesis
        by (auto simp: field_step_index map_assign_append split: if_splits)
    qed
  qed
qed

lemma field_step_Returns:
  assumes "field_step E n a rec line f i iIndex (h, idxs) = Returns err (h1, idxs1)"
  shows "CanSet f \<and> idxs1 = idxs \<and>
         ((\<exists>c. coerce E f (h ! a ! i) (line ! i) = Inl c \<and> err = CoercionError n i c \<and> h1 = h) \<or>
          (\<exists>v. coerce E f (h ! a ! i) (line ! i) = Inr v \<and> Tag f = ''index'' \<and>
               iIndex < length idxs \<and> hashable E (Val (Type f) v) \<and>
               map_lookup E (idxs ! iIndex) (Val (Type f) v) \<noteq> None \<and>
               err = DuplicateIndexError n i \<and> h1 = h[a := (h ! a)[i := v]]))"
proof (cases "CanSet f")
  case False
  with assms show ?thesis by (simp add: field_step_skip)
next
  case True
  show ?thesis
  proof (cases "coerce E f (h ! a ! i) (line ! i)")
    case (Inl c)
    with True assms show ?thesis by (simp add: field_step_err)
  next
    case (Inr v)
    show ?thesis
    proof (cases "Tag f = ''index''")
      case False
      with True Inr assms show ?thesis by (simp add: field_step_plain)
    next
      case tag: True
      with True Inr assms show ?thesis
        by (auto simp: field_step_index split: if_splits)
    qed
  qed
qed

subsection \<open>What the loop over the fields leaves as it is\<close>

lemma field_step_frame:
  assumes "field_step E n a rec line f i iIndex (h, idxs) = Continues (h1, idxs1)
           \<or> field_step E n a rec line f i iIndex (h, idxs) = Returns err (h1, idxs1)"
  shows "length h1 = length h \<and> (\<forall>b. b \<noteq> a \<longrightarrow> h1 ! b = h ! b) \<and>
         (a < length h \<longrightarrow> length (h1 ! a) = length (h ! a) \<and> (\<forall>p. p \<noteq> i \<longrightarrow> h1 ! a ! p = h ! a ! p)) \<and>
         length idxs1 = length idxs"
  using assms
proof
  assume "field_step E n a rec line f i iIndex (h, idxs) = Continues (h1, idxs1)"
  from field_step_Continues [OF this] show ?thesis
    by (auto split: if_splits)
next
  assume "field_step E n a rec line f i iIndex (h, idxs) = Returns err (h1, idxs1)"
  from field_step_Returns [OF this] show ?thesis
    by auto
qed

lemma field_loop_frame:
  "field_loop E n a rec line fs i iIndex (h, idxs) = Continues (h', idxs')
     \<or> field_loop E n a rec line fs i iIndex (h, idxs) = Returns err (h', idxs') \<Longrightarrow>
   length h' = length h \<and> (\<forall>b. b \<noteq> a \<longrightarrow> h' ! b = h ! b) \<and>
   (a < length h \<longrightarrow> length (h' ! a) = length (h ! a) \<and>
      (\<forall>p. p < i \<or> i + length fs \<le> p \<longrightarrow> h' ! a ! p = h ! a ! p)) \<and>
   length idxs' = length idxs"
proof (induction fs arbitrary: i iIndex h idxs)
  case Nil
  then show ?case by simp
next
  case (Cons f fs)
  show ?case
  proof (cases "field_step E n a rec line f i iIndex (h, idxs)")
    case Panics
    with Cons.prems show ?thesis by (simp add: field_loop_Cons)
  next
    case (Returns e st1)
    obtain h1 idxs1 where st1: "st1 = (h1, idxs1)" by (cases st1)
    from Cons.prems Returns st1 have eq: "h' = h1" "idxs' = idxs1" "e = err"
      by (simp_all add: field_loop_Cons)
    from field_step_frame [of E n a rec line f i iIndex h idxs h1 idxs1 e] Returns st1 eq
    show ?thesis by auto
  next
    case (Continues st1)
    obtain h1 idxs1 where st1: "st1 = (h1, idxs1)" by (cases st1)
    from field_step_frame [of E n a rec line f i iIndex h idxs h1 idxs1 err] Continues st1
    have f1: "length h1 = length h" "\<forall>b. b \<noteq> a \<longrightarrow> h1 ! b = h ! b"
      "a < length h \<longrightarrow> length (h1 ! a) = length (h ! a) \<and> (\<forall>p. p \<noteq> i \<longrightarrow> h1 ! a ! p = h ! a ! p)"
      "length idxs1 = length idxs"
      by auto
    from Cons.prems Continues st1
    have "field_loop E n a rec line fs (Suc i) (if indexed f then Suc iIndex else iIndex) (h1, idxs1) = Continues (h', idxs')
        \<or> field_loop E n a rec line fs (Suc i) (if indexed f then Suc iIndex else iIndex) (h1, idxs1) = Returns err (h', idxs')"
      by (simp add: field_loop_Cons)
    from Cons.IH [OF this]
    have f2: "length h' = length h1" "\<forall>b. b \<noteq> a \<longrightarrow> h' ! b = h1 ! b"
      "a < length h1 \<longrightarrow> length (h' ! a) = length (h1 ! a) \<and>
          (\<forall>p. p < Suc i \<or> Suc i + length fs \<le> p \<longrightarrow> h' ! a ! p = h1 ! a ! p)"
      "length idxs' = length idxs1"
      by auto
    from f1 f2 show ?thesis by auto
  qed
qed


subsection \<open>The values the loop over the fields stores\<close>

lemma field_loop_vals:
  "field_loop E n a rec line fs i iIndex (h, idxs) = Continues (h', idxs') \<Longrightarrow>
   a < length h \<Longrightarrow> i + length fs \<le> length (h ! a) \<Longrightarrow> j < length fs \<Longrightarrow>
   (if CanSet (fs ! j)
    then coerce E (fs ! j) (h ! a ! (i + j)) (line ! (i + j)) = Inr (h' ! a ! (i + j))
    else h' ! a ! (i + j) = h ! a ! (i + j))"
proof (induction fs arbitrary: i iIndex h idxs j)
  case Nil
  then show ?case by simp
next
  case (Cons f fs)
  from Cons.prems(1) obtain h1 idxs1 where
    step: "field_step E n a rec line f i iIndex (h, idxs) = Continues (h1, idxs1)" and
    rest: "field_loop E n a rec line fs (Suc i) (if indexed f then Suc iIndex else iIndex) (h1, idxs1)
             = Continues (h', idxs')"
    by (auto simp: field_loop_Cons split: flow.splits)
  from field_step_frame [of E n a rec line f i iIndex h idxs h1 idxs1] step Cons.prems(2)
  have f1: "length h1 = length h" "length (h1 ! a) = length (h ! a)"
    "\<forall>p. p \<noteq> i \<longrightarrow> h1 ! a ! p = h ! a ! p"
    by auto
  from field_loop_frame [of E n a rec line fs "Suc i" _ h1 idxs1 h' idxs'] rest f1 Cons.prems(2)
  have f2: "\<forall>p. p < Suc i \<longrightarrow> h' ! a ! p = h1 ! a ! p"
    by auto
  show ?case
  proof (cases j)
    case 0
    from field_step_Continues [OF step] Cons.prems(2,3) f2 0
    show ?thesis by (auto split: if_splits)
  next
    case (Suc j')
    with Cons.prems(4) have j': "j' < length fs" by simp
    from Cons.prems(3) f1 have len: "Suc i + length fs \<le> length (h1 ! a)" by simp
    from Cons.prems(2) f1 have a1: "a < length h1" by simp
    from f1 have e: "h1 ! a ! (Suc i + j') = h ! a ! (Suc i + j')" by simp
    from Cons.IH [OF rest a1 len j'] show ?thesis
      unfolding e Suc by (simp split: if_splits)
  qed
qed

subsection \<open>The entries the loop over the fields adds\<close>

lemma slot_of_less: "j < length fs \<Longrightarrow> indexed (fs ! j) \<Longrightarrow> slot_of fs j < length (filter indexed fs)"
proof -
  assume j: "j < length fs" and ix: "indexed (fs ! j)"
  have "fs = take j fs @ fs ! j # drop (Suc j) fs" using j by (simp add: id_take_nth_drop)
  then have "filter indexed fs = filter indexed (take j fs) @ filter indexed (fs ! j # drop (Suc j) fs)"
    by (metis filter_append)
  with ix show ?thesis by (simp add: slot_of_def)
qed

lemma field_loop_idx:
  "field_loop E n a rec line fs i iIndex (h, idxs) = Continues (h', idxs') \<Longrightarrow>
   a < length h \<Longrightarrow> i + length fs \<le> length (h ! a) \<Longrightarrow>
   (\<forall>j < length fs. indexed (fs ! j) \<longrightarrow>
      iIndex + slot_of fs j < length idxs \<and>
      hashable E (Val (Type (fs ! j)) (h' ! a ! (i + j))) \<and>
      map_lookup E (idxs ! (iIndex + slot_of fs j)) (Val (Type (fs ! j)) (h' ! a ! (i + j))) = None \<and>
      idxs' ! (iIndex + slot_of fs j) =
        idxs ! (iIndex + slot_of fs j) @ [(Val (Type (fs ! j)) (h' ! a ! (i + j)), rec)]) \<and>
   (\<forall>s. s < iIndex \<or> iIndex + length (filter indexed fs) \<le> s \<longrightarrow> idxs' ! s = idxs ! s)"
proof (induction fs arbitrary: i iIndex h idxs)
  case Nil
  then show ?case by simp
next
  case (Cons f fs)
  define iIndex1 where "iIndex1 = (if indexed f then Suc iIndex else iIndex)"
  from Cons.prems(1) obtain h1 idxs1 where
    step: "field_step E n a rec line f i iIndex (h, idxs) = Continues (h1, idxs1)" and
    rest: "field_loop E n a rec line fs (Suc i) iIndex1 (h1, idxs1) = Continues (h', idxs')"
    by (auto simp: field_loop_Cons iIndex1_def split: flow.splits)
  from field_step_frame [of E n a rec line f i iIndex h idxs h1 idxs1] step Cons.prems(2)
  have f1: "length h1 = length h" "length (h1 ! a) = length (h ! a)"
    "\<forall>p. p \<noteq> i \<longrightarrow> h1 ! a ! p = h ! a ! p" "length idxs1 = length idxs"
    by auto
  from field_loop_frame [of E n a rec line fs "Suc i" iIndex1 h1 idxs1 h' idxs'] rest f1 Cons.prems(2)
  have f2: "\<forall>p. p < Suc i \<longrightarrow> h' ! a ! p = h1 ! a ! p"
    by auto
  from Cons.prems(3) f1 have len: "Suc i + length fs \<le> length (h1 ! a)" by simp
  from Cons.prems(2) f1 have a1: "a < length h1" by simp
  note IH = Cons.IH [OF rest a1 len]
  from IH have IH1: "\<And>j. j < length fs \<Longrightarrow> indexed (fs ! j) \<Longrightarrow>
      iIndex1 + slot_of fs j < length idxs1 \<and>
      hashable E (Val (Type (fs ! j)) (h' ! a ! (Suc i + j))) \<and>
      map_lookup E (idxs1 ! (iIndex1 + slot_of fs j)) (Val (Type (fs ! j)) (h' ! a ! (Suc i + j))) = None \<and>
      idxs' ! (iIndex1 + slot_of fs j) =
        idxs1 ! (iIndex1 + slot_of fs j) @ [(Val (Type (fs ! j)) (h' ! a ! (Suc i + j)), rec)]"
    by blast
  from IH have IH2: "\<And>s. s < iIndex1 \<or> iIndex1 + length (filter indexed fs) \<le> s \<Longrightarrow> idxs' ! s = idxs1 ! s"
    by blast
  have stepidx: "\<And>s. s \<noteq> iIndex \<or> \<not> indexed f \<Longrightarrow> idxs1 ! s = idxs ! s"
    using field_step_Continues [OF step] by (auto simp: indexed_def split: if_splits)
  have step0: "indexed f \<Longrightarrow>
      iIndex < length idxs \<and> hashable E (Val (Type f) (h' ! a ! i)) \<and>
      map_lookup E (idxs ! iIndex) (Val (Type f) (h' ! a ! i)) = None \<and>
      idxs1 ! iIndex = idxs ! iIndex @ [(Val (Type f) (h' ! a ! i), rec)]"
    using field_step_Continues [OF step] Cons.prems(2,3) f2
    by (auto simp: indexed_def split: if_splits)
  have A: "\<forall>j < length (f # fs). indexed ((f # fs) ! j) \<longrightarrow>
      iIndex + slot_of (f # fs) j < length idxs \<and>
      hashable E (Val (Type ((f # fs) ! j)) (h' ! a ! (i + j))) \<and>
      map_lookup E (idxs ! (iIndex + slot_of (f # fs) j)) (Val (Type ((f # fs) ! j)) (h' ! a ! (i + j))) = None \<and>
      idxs' ! (iIndex + slot_of (f # fs) j) =
        idxs ! (iIndex + slot_of (f # fs) j) @ [(Val (Type ((f # fs) ! j)) (h' ! a ! (i + j)), rec)]"
  proof (intro allI impI)
    fix j assume j: "j < length (f # fs)" and ix: "indexed ((f # fs) ! j)"
    show "iIndex + slot_of (f # fs) j < length idxs \<and>
      hashable E (Val (Type ((f # fs) ! j)) (h' ! a ! (i + j))) \<and>
      map_lookup E (idxs ! (iIndex + slot_of (f # fs) j)) (Val (Type ((f # fs) ! j)) (h' ! a ! (i + j))) = None \<and>
      idxs' ! (iIndex + slot_of (f # fs) j) =
        idxs ! (iIndex + slot_of (f # fs) j) @ [(Val (Type ((f # fs) ! j)) (h' ! a ! (i + j)), rec)]"
    proof (cases j)
      case 0
      with ix have ixf: "indexed f" by simp
      have "idxs' ! iIndex = idxs1 ! iIndex" using IH2 [of iIndex] ixf by (simp add: iIndex1_def)
      with step0 [OF ixf] 0 show ?thesis by (simp add: slot_of_0)
    next
      case (Suc j')
      with j ix have j': "j' < length fs" and ix': "indexed (fs ! j')" by simp_all
      have s: "iIndex + slot_of (f # fs) j = iIndex1 + slot_of fs j'"
        by (simp add: Suc slot_of_Suc iIndex1_def)
      have ne: "iIndex1 + slot_of fs j' \<noteq> iIndex \<or> \<not> indexed f"
        by (simp add: iIndex1_def)
      from IH1 [OF j' ix'] stepidx [OF ne] f1 s Suc
      show ?thesis by simp
    qed
  qed
  have B: "\<forall>s. s < iIndex \<or> iIndex + length (filter indexed (f # fs)) \<le> s \<longrightarrow> idxs' ! s = idxs ! s"
  proof (intro allI impI)
    fix s assume s: "s < iIndex \<or> iIndex + length (filter indexed (f # fs)) \<le> s"
    then have "s < iIndex1 \<or> iIndex1 + length (filter indexed fs) \<le> s"
      by (auto simp: iIndex1_def split: if_splits)
    from IH2 [OF this] have "idxs' ! s = idxs1 ! s" .
    moreover from s have "s \<noteq> iIndex \<or> \<not> indexed f" by (auto split: if_splits)
    from stepidx [OF this] have "idxs1 ! s = idxs ! s" .
    ultimately show "idxs' ! s = idxs ! s" by simp
  qed
  from A B show ?case by blast
qed

subsection \<open>A loop over a list that is cut in two\<close>

lemma field_loop_append:
  "field_loop E n a rec line (fs1 @ fs2) i iIndex st =
     (case field_loop E n a rec line fs1 i iIndex st of
        Panics \<Rightarrow> Panics
      | Returns err st' \<Rightarrow> Returns err st'
      | Continues st' \<Rightarrow>
          field_loop E n a rec line fs2 (i + length fs1) (iIndex + length (filter indexed fs1)) st')"
proof (induction fs1 arbitrary: i iIndex st)
  case Nil
  show ?case by (cases st) simp
next
  case (Cons f fs1)
  show ?case
    by (simp only: append_Cons field_loop_Cons Cons.IH)
       (simp split: flow.splits)
qed

lemma row_loop_append:
  "row_loop E fs n (rows1 @ rows2) st =
     (case row_loop E fs n rows1 st of
        Panics \<Rightarrow> Panics
      | Returns err st' \<Rightarrow> Returns err st'
      | Continues st' \<Rightarrow> row_loop E fs (n + length rows1) rows2 st')"
proof (induction rows1 arbitrary: n st)
  case Nil
  show ?case by (cases st) simp
next
  case (Cons line rows1)
  obtain h recs idxs where st: "st = (h, recs, idxs)" by (cases st)
  show ?case
    unfolding st
    by (simp add: Cons.IH Let_def split: flow.splits prod.splits)
qed


subsection \<open>One data row\<close>

text \<open>\<open>field_value E f tok\<close> is the value that the loop over the fields leaves in a
  field of a new struct: the parsed token, or the zero value for a field that cannot
  be set; \<open>None\<close> when the token does not parse.  \<open>key_at fs h a j\<close> is
  \<open>field.Interface()\<close> of field \<open>j\<close> of the struct at address \<open>a\<close>.\<close>

definition field_value :: "('f, 'j) env \<Rightarrow> field \<Rightarrow> string \<Rightarrow> ('f, 'j) payload option" where
  "field_value E f tok =
     (if CanSet f
      then (case coerce E f (zero E (Type f)) tok of Inl err \<Rightarrow> None | Inr v \<Rightarrow> Some v)
      else Some (zero E (Type f)))"

definition key_at :: "field list \<Rightarrow> ('f, 'j) heap \<Rightarrow> nat \<Rightarrow> nat \<Rightarrow> ('f, 'j) iface" where
  "key_at fs h a j = Val (Type (fs ! j)) (h ! a ! j)"

lemma row_loop_single_Continues:
  assumes run: "row_loop E fs n [line] (h, recs, idxs) = Continues (h', recs', idxs')"
  shows "n - 1 < length recs" and "length line = length fs"
    and "recs' = recs[n - 1 := Ptr (length h)]"
    and "length h' = Suc (length h)" and "\<forall>b < length h. h' ! b = h ! b"
    and "length (h' ! length h) = length fs"
    and "\<forall>j < length fs. field_value E (fs ! j) (line ! j) = Some (h' ! length h ! j)"
    and "length idxs' = length idxs"
    and "\<forall>j < length fs. indexed (fs ! j) \<longrightarrow>
           slot_of fs j < length idxs \<and> hashable E (key_at fs h' (length h) j) \<and>
           map_lookup E (idxs ! slot_of fs j) (key_at fs h' (length h) j) = None \<and>
           idxs' ! slot_of fs j = idxs ! slot_of fs j @ [(key_at fs h' (length h) j, Ptr (length h))]"
    and "\<forall>s. length (filter indexed fs) \<le> s \<longrightarrow> idxs' ! s = idxs ! s"
proof -
  define h1 where "h1 = h @ [map (\<lambda>f. zero E (Type f)) fs]"
  define rec where "rec = recs[n - 1 := Ptr (length h)] ! (n - 1)"
  from run show n: "n - 1 < length recs"
    by (simp add: Let_def split: if_splits)
  from run n show len: "length line = length fs"
    by (simp add: Let_def split: if_splits)
  from n have rec: "rec = Ptr (length h)"
    by (simp add: rec_def)
  from run n len
  have fl: "field_loop E n (length h) rec line fs 0 0 (h1, idxs) = Continues (h', idxs')"
    and r: "recs' = recs[n - 1 := Ptr (length h)]"
    by (auto simp: Let_def h1_def rec_def split: if_splits flow.splits)
  from r show "recs' = recs[n - 1 := Ptr (length h)]" .
  have a: "length h < length h1" by (simp add: h1_def)
  have cell: "h1 ! length h = map (\<lambda>f. zero E (Type f)) fs" by (simp add: h1_def)
  then have l: "0 + length fs \<le> length (h1 ! length h)" by simp
  from field_loop_frame [of E n "length h" rec line fs 0 0 h1 idxs h' idxs'] fl a
  have fr: "length h' = length h1" "\<forall>b. b \<noteq> length h \<longrightarrow> h' ! b = h1 ! b"
    "length (h' ! length h) = length (h1 ! length h)" "length idxs' = length idxs"
    by auto
  from fr show "length h' = Suc (length h)" by (simp add: h1_def)
  from fr show "\<forall>b < length h. h' ! b = h ! b" by (simp add: h1_def nth_append)
  from fr cell show "length (h' ! length h) = length fs" by simp
  from fr show "length idxs' = length idxs" by simp
  show "\<forall>j < length fs. field_value E (fs ! j) (line ! j) = Some (h' ! length h ! j)"
  proof (intro allI impI)
    fix j assume j: "j < length fs"
    from field_loop_vals [OF fl a l j] cell j
    show "field_value E (fs ! j) (line ! j) = Some (h' ! length h ! j)"
      by (auto simp: field_value_def split: if_splits)
  qed
  from field_loop_idx [OF fl a l]
  show "\<forall>j < length fs. indexed (fs ! j) \<longrightarrow>
           slot_of fs j < length idxs \<and> hashable E (key_at fs h' (length h) j) \<and>
           map_lookup E (idxs ! slot_of fs j) (key_at fs h' (length h) j) = None \<and>
           idxs' ! slot_of fs j = idxs ! slot_of fs j @ [(key_at fs h' (length h) j, Ptr (length h))]"
    by (simp add: key_at_def rec)
  from field_loop_idx [OF fl a l]
  show "\<forall>s. length (filter indexed fs) \<le> s \<longrightarrow> idxs' ! s = idxs ! s"
    by simp
qed

subsection \<open>All data rows\<close>

text \<open>\<open>entries fs h a0 j m\<close> are the entries that \<open>m\<close> rows, whose structs are at
  the addresses from \<open>a0\<close>, add to the index of field \<open>j\<close>.  \<open>loaded\<close> relates
  the state before the loop over the rows with the state after it, when it has run
  through all of \<open>rows\<close>.\<close>

definition entries :: "field list \<Rightarrow> ('f, 'j) heap \<Rightarrow> nat \<Rightarrow> nat \<Rightarrow> nat \<Rightarrow> ('f, 'j) Index" where
  "entries fs h a0 j m = map (\<lambda>k. (key_at fs h (a0 + k) j, Ptr (a0 + k))) [0..<m]"

lemma entries_cong:
  "(\<And>k. k < m \<Longrightarrow> h ! (a0 + k) = h' ! (a0 + k)) \<Longrightarrow> entries fs h a0 j m = entries fs h' a0 j m"
  by (simp add: entries_def key_at_def)

lemma entries_Suc:
  "entries fs h a0 j (Suc m) = entries fs h a0 j m @ [(key_at fs h (a0 + m) j, Ptr (a0 + m))]"
  by (simp add: entries_def)

definition loaded ::
  "('f, 'j) env \<Rightarrow> field list \<Rightarrow> nat \<Rightarrow> string list list \<Rightarrow>
   ('f, 'j) heap \<times> ('f, 'j) iface list \<times> ('f, 'j) Index list \<Rightarrow>
   ('f, 'j) heap \<times> ('f, 'j) iface list \<times> ('f, 'j) Index list \<Rightarrow> bool" where
  "loaded E fs n rows st st' =
     (case (st, st') of ((h, recs, idxs), (h', recs', idxs')) \<Rightarrow>
        length h' = length h + length rows \<and>
        (\<forall>b < length h. h' ! b = h ! b) \<and>
        length recs' = length recs \<and>
        (rows \<noteq> [] \<longrightarrow> n - 1 + length rows \<le> length recs) \<and>
        (\<forall>k < length rows. recs' ! (n - 1 + k) = Ptr (length h + k)) \<and>
        (\<forall>q. q < n - 1 \<or> n - 1 + length rows \<le> q \<longrightarrow> recs' ! q = recs ! q) \<and>
        (\<forall>k < length rows. length (rows ! k) = length fs \<and>
            length (h' ! (length h + k)) = length fs \<and>
            (\<forall>j < length fs. field_value E (fs ! j) (rows ! k ! j) = Some (h' ! (length h + k) ! j))) \<and>
        length idxs' = length idxs \<and>
        (\<forall>j < length fs. indexed (fs ! j) \<longrightarrow>
            (rows \<noteq> [] \<longrightarrow> slot_of fs j < length idxs) \<and>
            idxs' ! slot_of fs j = idxs ! slot_of fs j @ entries fs h' (length h) j (length rows) \<and>
            (\<forall>k < length rows.
               hashable E (key_at fs h' (length h + k) j) \<and>
               map_lookup E (idxs ! slot_of fs j @ entries fs h' (length h) j k)
                 (key_at fs h' (length h + k) j) = None)) \<and>
        (\<forall>s. length (filter indexed fs) \<le> s \<longrightarrow> idxs' ! s = idxs ! s))"

lemma loaded_iff:
  "loaded E fs n rows (h, recs, idxs) (h', recs', idxs') =
       (length h' = length h + length rows \<and>
        (\<forall>b < length h. h' ! b = h ! b) \<and>
        length recs' = length recs \<and>
        (rows \<noteq> [] \<longrightarrow> n - 1 + length rows \<le> length recs) \<and>
        (\<forall>k < length rows. recs' ! (n - 1 + k) = Ptr (length h + k)) \<and>
        (\<forall>q. q < n - 1 \<or> n - 1 + length rows \<le> q \<longrightarrow> recs' ! q = recs ! q) \<and>
        (\<forall>k < length rows. length (rows ! k) = length fs \<and>
            length (h' ! (length h + k)) = length fs \<and>
            (\<forall>j < length fs. field_value E (fs ! j) (rows ! k ! j) = Some (h' ! (length h + k) ! j))) \<and>
        length idxs' = length idxs \<and>
        (\<forall>j < length fs. indexed (fs ! j) \<longrightarrow>
            (rows \<noteq> [] \<longrightarrow> slot_of fs j < length idxs) \<and>
            idxs' ! slot_of fs j = idxs ! slot_of fs j @ entries fs h' (length h) j (length rows) \<and>
            (\<forall>k < length rows.
               hashable E (key_at fs h' (length h + k) j) \<and>
               map_lookup E (idxs ! slot_of fs j @ entries fs h' (length h) j k)
                 (key_at fs h' (length h + k) j) = None)) \<and>
        (\<forall>s. length (filter indexed fs) \<le> s \<longrightarrow> idxs' ! s = idxs ! s))"
  by (simp only: loaded_def prod.case)

lemma loaded_heap:
  assumes "loaded E fs n rows (h, recs, idxs) (h', recs', idxs')"
  shows "length h' = length h + length rows" and "\<And>b. b < length h \<Longrightarrow> h' ! b = h ! b"
  using assms unfolding loaded_iff by blast+

lemma loaded_recs:
  assumes "loaded E fs n rows (h, recs, idxs) (h', recs', idxs')"
  shows "length recs' = length recs"
    and "rows \<noteq> [] \<Longrightarrow> n - 1 + length rows \<le> length recs"
    and "\<And>k. k < length rows \<Longrightarrow> recs' ! (n - 1 + k) = Ptr (length h + k)"
    and "\<And>q. q < n - 1 \<or> n - 1 + length rows \<le> q \<Longrightarrow> recs' ! q = recs ! q"
  using assms unfolding loaded_iff by blast+

lemma loaded_rows:
  assumes "loaded E fs n rows (h, recs, idxs) (h', recs', idxs')" and "k < length rows"
  shows "length (rows ! k) = length fs" and "length (h' ! (length h + k)) = length fs"
    and "\<And>j. j < length fs \<Longrightarrow> field_value E (fs ! j) (rows ! k ! j) = Some (h' ! (length h + k) ! j)"
  using assms unfolding loaded_iff by blast+

lemma loaded_idxs:
  assumes "loaded E fs n rows (h, recs, idxs) (h', recs', idxs')"
  shows "length idxs' = length idxs"
    and "\<And>s. length (filter indexed fs) \<le> s \<Longrightarrow> idxs' ! s = idxs ! s"
  using assms unfolding loaded_iff by blast+

lemma loaded_slot:
  assumes "loaded E fs n rows (h, recs, idxs) (h', recs', idxs')"
    and "j < length fs" and "indexed (fs ! j)"
  shows "rows \<noteq> [] \<Longrightarrow> slot_of fs j < length idxs"
    and "idxs' ! slot_of fs j = idxs ! slot_of fs j @ entries fs h' (length h) j (length rows)"
    and "\<And>k. k < length rows \<Longrightarrow> hashable E (key_at fs h' (length h + k) j)"
    and "\<And>k. k < length rows \<Longrightarrow>
           map_lookup E (idxs ! slot_of fs j @ entries fs h' (length h) j k)
             (key_at fs h' (length h + k) j) = None"
  using assms unfolding loaded_iff by blast+


lemma row_loop_Continues:
  assumes n: "1 \<le> n"
  shows "row_loop E fs n rows (h, recs, idxs) = Continues (h', recs', idxs') \<Longrightarrow>
         loaded E fs n rows (h, recs, idxs) (h', recs', idxs')"
proof (induction rows arbitrary: h' recs' idxs' rule: rev_induct)
  case Nil
  then have "h' = h" "recs' = recs" "idxs' = idxs" by simp_all
  then show ?case unfolding loaded_iff by (simp add: entries_def)
next
  case (snoc line rows)
  from snoc.prems
  have "(case row_loop E fs n rows (h, recs, idxs) of
           Panics \<Rightarrow> Panics
         | Returns err st' \<Rightarrow> Returns err st'
         | Continues st' \<Rightarrow> row_loop E fs (n + length rows) [line] st') = Continues (h', recs', idxs')"
    by (simp only: row_loop_append)
  then obtain sm where
    mid': "row_loop E fs n rows (h, recs, idxs) = Continues sm" and
    last': "row_loop E fs (n + length rows) [line] sm = Continues (h', recs', idxs')"
    by (cases "row_loop E fs n rows (h, recs, idxs)") (simp_all del: row_loop.simps)
  obtain hm rm im where sm: "sm = (hm, rm, im)" by (cases sm)
  note mid = mid' [unfolded sm] and last = last' [unfolded sm]
  from snoc.IH [OF mid] have IH: "loaded E fs n rows (h, recs, idxs) (hm, rm, im)" .
  note S = row_loop_single_Continues [OF last]
  note H = loaded_heap [OF IH] and R = loaded_recs [OF IH] and I = loaded_idxs [OF IH]
  have old: "\<And>b. b < length hm \<Longrightarrow> h' ! b = hm ! b" using S(5) by simp
  have nn: "n + length rows - 1 = n - 1 + length rows" using n by arith
  note S1 = S(1) [unfolded nn] and S3 = S(3) [unfolded nn]
  have c1: "length h' = length h + length (rows @ [line])" using S(4) H(1) by simp
  have c2: "\<forall>b < length h. h' ! b = h ! b"
  proof (intro allI impI)
    fix b assume b: "b < length h"
    then have "b < length hm" using H(1) by simp
    from old [OF this] H(2) [OF b] show "h' ! b = h ! b" by simp
  qed
  have c3: "length recs' = length recs" using S3 R(1) by simp
  have c4: "rows @ [line] \<noteq> [] \<longrightarrow> n - 1 + length (rows @ [line]) \<le> length recs"
    using S1 R(1) by simp
  have c5: "\<forall>k < length (rows @ [line]). recs' ! (n - 1 + k) = Ptr (length h + k)"
  proof (intro allI impI)
    fix k assume "k < length (rows @ [line])"
    then consider "k < length rows" | "k = length rows" by fastforce
    then show "recs' ! (n - 1 + k) = Ptr (length h + k)"
    proof cases
      case 1
      from R(3) [OF 1] have "rm ! (n - 1 + k) = Ptr (length h + k)" .
      moreover from 1 have "n - 1 + k \<noteq> n - 1 + length rows" by simp
      ultimately show ?thesis using S3 by simp
    next
      case 2
      with S1 S3 H(1) show ?thesis by simp
    qed
  qed
  have c6: "\<forall>q. q < n - 1 \<or> n - 1 + length (rows @ [line]) \<le> q \<longrightarrow> recs' ! q = recs ! q"
  proof (intro allI impI)
    fix q assume q: "q < n - 1 \<or> n - 1 + length (rows @ [line]) \<le> q"
    then have "q < n - 1 \<or> n - 1 + length rows \<le> q" by auto
    from R(4) [OF this] have "rm ! q = recs ! q" .
    moreover from q have "q \<noteq> n - 1 + length rows" by auto
    ultimately show "recs' ! q = recs ! q" using S3 by simp
  qed
  have c7: "\<forall>k < length (rows @ [line]). length ((rows @ [line]) ! k) = length fs \<and>
            length (h' ! (length h + k)) = length fs \<and>
            (\<forall>j < length fs. field_value E (fs ! j) ((rows @ [line]) ! k ! j) = Some (h' ! (length h + k) ! j))"
  proof (intro allI impI)
    fix k assume "k < length (rows @ [line])"
    then consider "k < length rows" | "k = length rows" by fastforce
    then show "length ((rows @ [line]) ! k) = length fs \<and>
            length (h' ! (length h + k)) = length fs \<and>
            (\<forall>j < length fs. field_value E (fs ! j) ((rows @ [line]) ! k ! j) = Some (h' ! (length h + k) ! j))"
    proof cases
      case 1
      then have e: "h' ! (length h + k) = hm ! (length h + k)" using old H(1) by simp
      from 1 have r: "(rows @ [line]) ! k = rows ! k" by (simp add: nth_append)
      from loaded_rows [OF IH 1] show ?thesis unfolding e r by blast
    next
      case 2
      then have r: "(rows @ [line]) ! k = line" by simp
      from 2 H(1) have e: "length h + k = length hm" by simp
      from S(2,6,7) show ?thesis unfolding e r by blast
    qed
  qed
  have c8: "length idxs' = length idxs" using S(8) I(1) by simp
  have c9: "\<forall>j < length fs. indexed (fs ! j) \<longrightarrow>
            (rows @ [line] \<noteq> [] \<longrightarrow> slot_of fs j < length idxs) \<and>
            idxs' ! slot_of fs j = idxs ! slot_of fs j @ entries fs h' (length h) j (length (rows @ [line])) \<and>
            (\<forall>k < length (rows @ [line]).
               hashable E (key_at fs h' (length h + k) j) \<and>
               map_lookup E (idxs ! slot_of fs j @ entries fs h' (length h) j k)
                 (key_at fs h' (length h + k) j) = None)"
  proof (intro allI impI)
    fix j assume j: "j < length fs" and ix: "indexed (fs ! j)"
    from S(9) j ix have s1: "slot_of fs j < length im"
      and s2: "hashable E (key_at fs h' (length hm) j)"
      and s3: "map_lookup E (im ! slot_of fs j) (key_at fs h' (length hm) j) = None"
      and s4: "idxs' ! slot_of fs j = im ! slot_of fs j @ [(key_at fs h' (length hm) j, Ptr (length hm))]"
      by blast+
    note L = loaded_slot [OF IH j ix]
    have e: "\<And>m. m \<le> length rows \<Longrightarrow> entries fs hm (length h) j m = entries fs h' (length h) j m"
      by (rule entries_cong) (simp add: old H(1))
    have kk: "\<And>k. k < length rows \<Longrightarrow> key_at fs hm (length h + k) j = key_at fs h' (length h + k) j"
      by (simp add: key_at_def old H(1))
    have A: "idxs' ! slot_of fs j =
               idxs ! slot_of fs j @ entries fs h' (length h) j (length (rows @ [line]))"
      using s4 L(2) e [of "length rows"] H(1) by (simp add: entries_Suc)
    have B: "\<forall>k < length (rows @ [line]).
               hashable E (key_at fs h' (length h + k) j) \<and>
               map_lookup E (idxs ! slot_of fs j @ entries fs h' (length h) j k)
                 (key_at fs h' (length h + k) j) = None"
    proof (intro allI impI)
      fix k assume "k < length (rows @ [line])"
      then consider "k < length rows" | "k = length rows" by fastforce
      then show "hashable E (key_at fs h' (length h + k) j) \<and>
               map_lookup E (idxs ! slot_of fs j @ entries fs h' (length h) j k)
                 (key_at fs h' (length h + k) j) = None"
      proof cases
        case 1
        from L(3) [OF 1] L(4) [OF 1] kk [OF 1] e [of k] 1 show ?thesis by simp
      next
        case 2
        from s2 s3 L(2) e [of "length rows"] H(1) show ?thesis unfolding 2 by simp
      qed
    qed
    from s1 I(1) have "slot_of fs j < length idxs" by simp
    with A B show "(rows @ [line] \<noteq> [] \<longrightarrow> slot_of fs j < length idxs) \<and>
            idxs' ! slot_of fs j = idxs ! slot_of fs j @ entries fs h' (length h) j (length (rows @ [line])) \<and>
            (\<forall>k < length (rows @ [line]).
               hashable E (key_at fs h' (length h + k) j) \<and>
               map_lookup E (idxs ! slot_of fs j @ entries fs h' (length h) j k)
                 (key_at fs h' (length h + k) j) = None)"
      by blast
  qed
  have c10: "\<forall>s. length (filter indexed fs) \<le> s \<longrightarrow> idxs' ! s = idxs ! s"
    using S(10) I(2) by simp
  show ?case
    unfolding loaded_iff
    using c1 c2 c3 c4 c5 c6 c7 c8 c9 c10 by blast
qed

subsection \<open>Read as a whole\<close>

text \<open>\<open>start fs h lines\<close> is the state in which \<open>Read\<close> enters its loop over the
  rows: the heap as it is, \<open>records\<close> of length \<open>len(lines)-1\<close> and one empty map
  for each field with the tag \<open>index\<close>.\<close>

definition start :: "field list \<Rightarrow> ('f, 'j) heap \<Rightarrow> string list list \<Rightarrow>
    ('f, 'j) heap \<times> ('f, 'j) iface list \<times> ('f, 'j) Index list" where
  "start fs h lines =
     (h, replicate (length lines - 1) Nil, map (\<lambda>f. []) (filter (\<lambda>f. Tag f = ''index'') fs))"

lemma Read_rows:
  assumes "ReadData E (set_defaults G rf) name = Inr lines" and "lines \<noteq> []"
    and "typeRecord rf = Some t" and "SKind t = KStruct"
  shows "Read E G (h, rf) name =
     (case row_loop E (Fields t) 1 (drop 1 lines) (start (Fields t) h lines) of
        Panics \<Rightarrow> Panic
      | Returns err (h', recs', idxs') \<Rightarrow> Return ((h', set_defaults G rf), Some err)
      | Continues (h', recs', idxs') \<Rightarrow>
          Return ((h', (set_defaults G rf)\<lparr>records := recs', indexes := idxs'\<rparr>), None))"
proof -
  have t: "typeRecord (set_defaults G rf) = Some t"
    using assms(3) by (simp add: set_defaults_def)
  show ?thesis
    using assms(1,2,4) t
    by (simp add: Read_def Let_def start_def del: row_loop.simps)
qed

lemma Read_cases:
  "Read E G (h, rf) name = Panic \<or>
   (\<exists>err. ReadData E (set_defaults G rf) name = Inl err \<and>
      Read E G (h, rf) name = Return ((h, set_defaults G rf), Some err)) \<or>
   (\<exists>lines t. ReadData E (set_defaults G rf) name = Inr lines \<and> lines \<noteq> [] \<and>
      typeRecord rf = Some t \<and> SKind t = KStruct \<and>
      ((\<exists>err h' recs' idxs'.
          row_loop E (Fields t) 1 (drop 1 lines) (start (Fields t) h lines) = Returns err (h', recs', idxs') \<and>
          Read E G (h, rf) name = Return ((h', set_defaults G rf), Some err)) \<or>
       (\<exists>h' recs' idxs'.
          row_loop E (Fields t) 1 (drop 1 lines) (start (Fields t) h lines) = Continues (h', recs', idxs') \<and>
          Read E G (h, rf) name =
            Return ((h', (set_defaults G rf)\<lparr>records := recs', indexes := idxs'\<rparr>), None))))"
proof (cases "ReadData E (set_defaults G rf) name")
  case (Inl err)
  then show ?thesis by (simp add: Read_def Let_def)
next
  case (Inr lines)
  show ?thesis
  proof (cases "lines = []")
    case True
    with Inr show ?thesis by (simp add: Read_def Let_def)
  next
    case ne: False
    show ?thesis
    proof (cases "typeRecord rf")
      case None
      then have "typeRecord (set_defaults G rf) = None" by (simp add: set_defaults_def)
      with Inr ne show ?thesis by (simp add: Read_def Let_def)
    next
      case (Some t)
      then have t: "typeRecord (set_defaults G rf) = Some t" by (simp add: set_defaults_def)
      show ?thesis
      proof (cases "SKind t = KStruct")
        case False
        with Inr ne t show ?thesis by (simp add: Read_def Let_def)
      next
        case True
        note R = Read_rows [OF Inr ne Some True, of h]
        show ?thesis
        proof (cases "row_loop E (Fields t) 1 (drop 1 lines) (start (Fields t) h lines)")
          case Panics
          with R show ?thesis by simp
        next
          case (Returns err st')
          obtain h' recs' idxs' where "st' = (h', recs', idxs')" by (cases st')
          with R Returns Inr ne Some True show ?thesis by simp
        next
          case (Continues st')
          obtain h' recs' idxs' where "st' = (h', recs', idxs')" by (cases st')
          with R Continues Inr ne Some True show ?thesis by simp
        qed
      qed
    qed
  qed
qed

subsection \<open>The row at which the loop over the rows returns an error\<close>

lemma row_loop_Returns_split:
  "row_loop E fs n rows st = Returns err st' \<Longrightarrow>
   \<exists>k sm. k < length rows \<and> row_loop E fs n (take k rows) st = Continues sm \<and>
          row_loop E fs (n + k) [rows ! k] sm = Returns err st' \<and>
          row_loop E fs n (take (Suc k) rows) st = Returns err st'"
proof (induction rows arbitrary: st' rule: rev_induct)
  case Nil
  then show ?case by (cases st) simp
next
  case (snoc line rows)
  from snoc.prems
  have c: "(case row_loop E fs n rows st of
           Panics \<Rightarrow> Panics
         | Returns err st' \<Rightarrow> Returns err st'
         | Continues sm \<Rightarrow> row_loop E fs (n + length rows) [line] sm) = Returns err st'"
    by (simp only: row_loop_append)
  show ?case
  proof (cases "row_loop E fs n rows st")
    case Panics
    with c show ?thesis by simp
  next
    case (Returns e s)
    with c have r: "row_loop E fs n rows st = Returns err st'" by simp
    from snoc.IH [OF r] obtain k sm where
      k: "k < length rows" "row_loop E fs n (take k rows) st = Continues sm"
         "row_loop E fs (n + k) [rows ! k] sm = Returns err st'"
         "row_loop E fs n (take (Suc k) rows) st = Returns err st'"
      by blast
    from k(1) have "take k (rows @ [line]) = take k rows"
      "take (Suc k) (rows @ [line]) = take (Suc k) rows" "(rows @ [line]) ! k = rows ! k"
      by (simp_all add: nth_append)
    with k show ?thesis
      by (intro exI [of _ k] exI [of _ sm]) (simp del: row_loop.simps)
  next
    case (Continues sm)
    with c have l: "row_loop E fs (n + length rows) [line] sm = Returns err st'"
      by (simp del: row_loop.simps)
    show ?thesis
      using Continues l snoc.prems
      by (intro exI [of _ "length rows"] exI [of _ sm]) (simp del: row_loop.simps)
  qed
qed

lemma row_loop_single_Returns_heap:
  assumes "row_loop E fs n [line] (h, recs, idxs) = Returns err (h', recs', idxs')"
  shows "length h' = Suc (length h)" and "\<forall>b < length h. h' ! b = h ! b"
proof -
  define h1 where "h1 = h @ [map (\<lambda>f. zero E (Type f)) fs]"
  define rec where "rec = recs[n - 1 := Ptr (length h)] ! (n - 1)"
  have "h' = h1 \<or> (\<exists>i2. field_loop E n (length h) rec line fs 0 0 (h1, idxs) = Returns err (h', i2))"
    using assms
    by (auto simp: Let_def h1_def rec_def split: if_splits flow.splits)
  then have "length h' = length h1 \<and> (\<forall>b. b \<noteq> length h \<longrightarrow> h' ! b = h1 ! b)"
  proof
    assume "h' = h1" then show ?thesis by simp
  next
    assume "\<exists>i2. field_loop E n (length h) rec line fs 0 0 (h1, idxs) = Returns err (h', i2)"
    then obtain i2 where "field_loop E n (length h) rec line fs 0 0 (h1, idxs) = Returns err (h', i2)"
      by blast
    from field_loop_frame [of E n "length h" rec line fs 0 0 h1 idxs h' i2 err] this
    show ?thesis by blast
  qed
  then show "length h' = Suc (length h)" and "\<forall>b < length h. h' ! b = h ! b"
    by (simp_all add: h1_def nth_append)
qed

lemma row_loop_Returns_heap:
  assumes "row_loop E fs n rows (h, recs, idxs) = Returns err (h', recs', idxs')" and "1 \<le> n"
  shows "length h \<le> length h'" and "\<forall>b < length h. h' ! b = h ! b"
proof -
  from row_loop_Returns_split [OF assms(1)] obtain k sm where
    k: "k < length rows" "row_loop E fs n (take k rows) (h, recs, idxs) = Continues sm"
       "row_loop E fs (n + k) [rows ! k] sm = Returns err (h', recs', idxs')"
    by blast
  obtain hm rm im where sm: "sm = (hm, rm, im)" by (cases sm)
  from row_loop_Continues [OF assms(2) k(2) [unfolded sm]]
  have L: "loaded E fs n (take k rows) (h, recs, idxs) (hm, rm, im)" .
  note H = loaded_heap [OF L]
  note S = row_loop_single_Returns_heap [OF k(3) [unfolded sm]]
  from H(1) S(1) show "length h \<le> length h'" by simp
  show "\<forall>b < length h. h' ! b = h ! b"
  proof (intro allI impI)
    fix b assume b: "b < length h"
    with H(1) have "b < length hm" by simp
    with S(2) have "h' ! b = hm ! b" by simp
    with H(2) [OF b] show "h' ! b = h ! b" by simp
  qed
qed

section \<open>An environment and a schema for the examples\<close>

text \<open>\<open>example_env content\<close> is a 64-bit platform with one file of the given content.
  It stands for no float parser and no JSON decoder: \<open>ParseFloat\<close> knows the
  literal \<open>0\<close> only and \<open>Unmarshal\<close> fails.  \<open>person\<close> is the struct
  \<open>{Name string; Age int "index"}\<close>, \<open>new_file t\<close> the \<open>RecordFile\<close> that \<open>New\<close>
  returns for the struct type \<open>t\<close>, and \<open>eol\<close> the default line terminator.\<close>

definition example_env :: "string \<Rightarrow> (int, unit) env" where
  "example_env content =
     \<lparr>IntSize = 64, ReadAll = (\<lambda>name. Inr content),
      ParseFloat = (\<lambda>s bits. if s = ''0'' then Inr 0 else Inl ''invalid syntax''),
      float_zero = 0, float_eq = (=),
      Unmarshal = (\<lambda>data t v. Inl ''unexpected end of JSON input''),
      comp_zero = (\<lambda>t. ()), comp_hashable = (\<lambda>v. True), comp_eq = (=)\<rparr>"

definition tString :: rtype where
  "tString = \<lparr>TypeString = ''string'', Kind = KString\<rparr>"

definition tInt :: rtype where
  "tInt = \<lparr>TypeString = ''int'', Kind = KInt\<rparr>"

definition person :: stype where
  "person =
     \<lparr>SKind = KStruct,
      Fields = [\<lparr>Name = ''Name'', PkgPath = [], Type = tString, Tag = []\<rparr>,
                \<lparr>Name = ''Age'', PkgPath = [], Type = tInt, Tag = ''index''\<rparr>]\<rparr>"

definition eol :: string where
  "eol = ''!####!'' @ [CHR 0x0A]"

definition new_file :: "stype \<Rightarrow> ('f, 'j) RecordFile" where
  "new_file t =
     \<lparr>Comma = [], Comment = [], LineEndStr = [], typeRecord = Some t,
      records = [], indexes = []\<rparr>"

section \<open>Schema construction\<close>

text \<open>The errors of \<open>New\<close> are the spec's SchemaError.\<close>

fun SchemaError :: "error \<Rightarrow> bool" where
  "SchemaError NotAStruct = True"
| "SchemaError (InvalidType name k) = True"
| "SchemaError (CouldNotIndex k i name) = True"
| "SchemaError err = False"

lemma New_loop_SchemaError: "New_loop fs i = Some err \<Longrightarrow> SchemaError err"
  by (induction fs arbitrary: i) (auto simp: Let_def split: if_splits)

lemma New_loop_refuses:
  "f \<in> set fs \<Longrightarrow> Tag f = ''index'' \<Longrightarrow> Kind (Type f) \<in> {KStruct, KSlice, KMap} \<Longrightarrow>
   New_loop fs i \<noteq> None"
  by (induction fs arbitrary: i) (auto simp: Let_def)

lemma New_new_file: "New_loop (Fields t) 0 = None \<Longrightarrow> SKind t = KStruct \<Longrightarrow> New (Some t) = Inr (new_file t)"
  by (simp add: New_def new_file_def)

text \<open>Claim C7, as amended.  For every struct type given to \<open>New\<close>: if a field with
  the tag \<open>index\<close> has kind struct, slice or map, \<open>New\<close> fails with a SchemaError
  and returns no \<open>RecordFile\<close>.  (An array field may carry the tag.)\<close>

theorem New_refuses_index_on_struct_slice_map:
  assumes "f \<in> set (Fields t)" and "Tag f = ''index''"
    and "Kind (Type f) \<in> {KStruct, KSlice, KMap}"
  shows "\<exists>err. (New (Some t) :: error + ('f, 'j) RecordFile) = Inl err \<and> SchemaError err"
proof (cases "SKind t = KStruct")
  case False
  then show ?thesis by (simp add: New_def)
next
  case True
  from New_loop_refuses [OF assms] obtain err where e: "New_loop (Fields t) 0 = Some err"
    by blast
  with True New_loop_SchemaError [OF e] show ?thesis by (simp add: New_def)
qed

text \<open>The theorem at the struct \<open>{Tags []string "index"}\<close>.\<close>

theorem New_refuses_index_on_struct_slice_map_witness:
  "\<lparr>Name = ''Tags'', PkgPath = [], Type = \<lparr>TypeString = ''[]string'', Kind = KSlice\<rparr>, Tag = ''index''\<rparr>
     \<in> set (Fields \<lparr>SKind = KStruct, Fields =
         [\<lparr>Name = ''Tags'', PkgPath = [], Type = \<lparr>TypeString = ''[]string'', Kind = KSlice\<rparr>, Tag = ''index''\<rparr>]\<rparr>) \<and>
   (\<exists>err. (New (Some \<lparr>SKind = KStruct, Fields =
         [\<lparr>Name = ''Tags'', PkgPath = [], Type = \<lparr>TypeString = ''[]string'', Kind = KSlice\<rparr>, Tag = ''index''\<rparr>]\<rparr>)
        :: error + (int, unit) RecordFile) = Inl err \<and> SchemaError err)"
  using New_refuses_index_on_struct_slice_map
    [of "\<lparr>Name = ''Tags'', PkgPath = [], Type = \<lparr>TypeString = ''[]string'', Kind = KSlice\<rparr>, Tag = ''index''\<rparr>"
        "\<lparr>SKind = KStruct, Fields =
         [\<lparr>Name = ''Tags'', PkgPath = [], Type = \<lparr>TypeString = ''[]string'', Kind = KSlice\<rparr>, Tag = ''index''\<rparr>]\<rparr>"]
  by simp

text \<open>Claim C7 as stated fails for arrays: \<open>New\<close> accepts the struct
  \<open>{Pos [2]int "index"}\<close>, whose indexed field has kind array.\<close>

theorem New_accepts_index_on_array:
  "Tag \<lparr>Name = ''Pos'', PkgPath = [], Type = \<lparr>TypeString = ''[2]int'', Kind = KArray\<rparr>, Tag = ''index''\<rparr> = ''index'' \<and>
   Kind (Type \<lparr>Name = ''Pos'', PkgPath = [], Type = \<lparr>TypeString = ''[2]int'', Kind = KArray\<rparr>, Tag = ''index''\<rparr>) = KArray \<and>
   (New (Some \<lparr>SKind = KStruct, Fields =
         [\<lparr>Name = ''Pos'', PkgPath = [], Type = \<lparr>TypeString = ''[2]int'', Kind = KArray\<rparr>, Tag = ''index''\<rparr>]\<rparr>)
      :: error + (int, unit) RecordFile) =
     Inr \<lparr>Comma = [], Comment = [], LineEndStr = [],
          typeRecord = Some \<lparr>SKind = KStruct, Fields =
            [\<lparr>Name = ''Pos'', PkgPath = [], Type = \<lparr>TypeString = ''[2]int'', Kind = KArray\<rparr>, Tag = ''index''\<rparr>]\<rparr>,
          records = [], indexes = []\<rparr>"
  by (simp add: New_def)

section \<open>The tokenizer\<close>

text \<open>The tokenizer in the words of the spec (4.2): split the content on the line terminator; skip an empty
  chunk; strip one trailing newline; skip a chunk that starts with the comment
  marker; split each chunk that is left on the field delimiter.\<close>

definition strip_newline :: "string \<Rightarrow> string" where
  "strip_newline l = (if HasSuffix l [CHR 0x0A] then take (length l - 1) l else l)"

definition retained :: "string \<Rightarrow> string \<Rightarrow> bool" where
  "retained commentMarker chunk = (chunk \<noteq> [] \<and> \<not> HasPrefix (strip_newline chunk) commentMarker)"

definition Tokenizer :: "string \<Rightarrow> string \<Rightarrow> string \<Rightarrow> string \<Rightarrow> string list list" where
  "Tokenizer fieldDelimiter commentMarker lineTerminator content =
     map (\<lambda>chunk. Split (strip_newline chunk) fieldDelimiter)
       (filter (retained commentMarker) (Split content lineTerminator))"

lemma ReadData_loop_Tokenizer:
  "ReadData_loop comma comment ls rows =
     rows @ map (\<lambda>chunk. Split (strip_newline chunk) comma) (filter (retained comment) ls)"
  by (induction ls arbitrary: rows) (simp_all add: Let_def strip_newline_def retained_def)

lemma ReadData_Tokenizer:
  "ReadData E rf name =
     (case ReadAll E name of
        Inl err \<Rightarrow> Inl (IOError err)
      | Inr content \<Rightarrow> Inr (Tokenizer (Comma rf) (Comment rf) (LineEndStr rf) content))"
  by (simp add: ReadData_def Tokenizer_def ReadData_loop_Tokenizer split: sum.splits)

text \<open>Claim C10.  When every chunk of the file content is empty or a comment line (so
  for the empty content too), the tokenizer retains no row, and \<open>Read\<close> does
  not return: \<open>make([]interface{}, len(lines)-1)\<close> is called with length \<open>-1\<close>
  and panics.\<close>

theorem Read_panics_without_rows:
  assumes "ReadAll E name = Inr content"
    and "\<forall>chunk \<in> set (Split content (LineEndStr (set_defaults G rf))).
           chunk = [] \<or> HasPrefix (strip_newline chunk) (Comment (set_defaults G rf))"
  shows "ReadData E (set_defaults G rf) name = Inr [] \<and> Read E G (h, rf) name = Panic"
proof -
  from assms(2)
  have "filter (retained (Comment (set_defaults G rf)))
          (Split content (LineEndStr (set_defaults G rf))) = []"
    by (auto simp: filter_empty_conv retained_def)
  with assms(1) have rd: "ReadData E (set_defaults G rf) name = Inr []"
    by (simp add: ReadData_Tokenizer Tokenizer_def)
  then show ?thesis by (simp add: Read_def Let_def)
qed

lemma Split_comments:
  "Split (''#one'' @ eol @ ''#two'' @ eol) eol = [''#one'', ''#two'', []]"
  by code_simp

text \<open>The theorem at a file of two comment lines.\<close>

theorem Read_panics_without_rows_witness:
  "ReadAll (example_env (''#one'' @ eol @ ''#two'' @ eol)) ''people.txt'' = Inr (''#one'' @ eol @ ''#two'' @ eol) \<and>
   Split (''#one'' @ eol @ ''#two'' @ eol) (LineEndStr (set_defaults initial_globals (new_file person :: (int, unit) RecordFile)))
     = [''#one'', ''#two'', []] \<and>
   Read (example_env (''#one'' @ eol @ ''#two'' @ eol)) initial_globals ([], new_file person) ''people.txt'' = Panic"
proof -
  let ?c = "''#one'' @ eol @ ''#two'' @ eol"
  let ?rf = "new_file person :: (int, unit) RecordFile"
  have l: "LineEndStr (set_defaults initial_globals ?rf) = eol"
    by (simp add: set_defaults_def initial_globals_def new_file_def eol_def)
  have c: "Comment (set_defaults initial_globals ?rf) = ''#''"
    by (simp add: set_defaults_def initial_globals_def new_file_def)
  have a: "ReadAll (example_env ?c) ''people.txt'' = Inr ?c"
    by (simp add: example_env_def)
  have b: "\<forall>chunk \<in> set (Split ?c (LineEndStr (set_defaults initial_globals ?rf))).
           chunk = [] \<or> HasPrefix (strip_newline chunk) (Comment (set_defaults initial_globals ?rf))"
    unfolding l c Split_comments by (simp add: HasPrefix_def strip_newline_def HasSuffix_def)
  from Read_panics_without_rows [OF a b, of "[]"] a l Split_comments show ?thesis by simp
qed


section \<open>The accessors after a load\<close>

lemma Read_success:
  assumes "Read E G (h, rf) name = Return ((h', rf'), None)"
  obtains lines t recs' idxs' where
    "ReadData E (set_defaults G rf) name = Inr lines" and "lines \<noteq> []"
    and "typeRecord rf = Some t" and "SKind t = KStruct"
    and "row_loop E (Fields t) 1 (drop 1 lines) (start (Fields t) h lines) = Continues (h', recs', idxs')"
    and "rf' = (set_defaults G rf)\<lparr>records := recs', indexes := idxs'\<rparr>"
  using Read_cases [of E G h rf name] assms by auto

lemma Read_error:
  assumes "Read E G (h, rf) name = Return ((h', rf'), Some err)"
  shows "rf' = set_defaults G rf"
    and "(ReadData E (set_defaults G rf) name = Inl err \<and> h' = h) \<or>
         (\<exists>lines t recs' idxs'. ReadData E (set_defaults G rf) name = Inr lines \<and> lines \<noteq> [] \<and>
            typeRecord rf = Some t \<and> SKind t = KStruct \<and>
            row_loop E (Fields t) 1 (drop 1 lines) (start (Fields t) h lines) = Returns err (h', recs', idxs'))"
  using Read_cases [of E G h rf name] assms by auto

lemma loaded_start:
  assumes "row_loop E fs 1 rows (start fs h lines) = Continues (h', recs', idxs')"
  shows "loaded E fs 1 rows (h, replicate (length lines - 1) Nil,
           map (\<lambda>f. []) (filter (\<lambda>f. Tag f = ''index'') fs)) (h', recs', idxs')"
  using row_loop_Continues [of 1 E fs rows] assms unfolding start_def by simp

text \<open>Claim C8.  \<open>Record(i)\<close> indexes the slice \<open>records\<close>, and Go checks the
  bounds: for \<open>0 \<le> i < NumRecord()\<close> it returns the element at \<open>i\<close>, for every
  other \<open>i\<close> it panics (the contract violation).  After a load without error the
  element at \<open>i\<close> is the pointer to the \<open>i\<close>-th struct the load has allocated, and
  that struct holds the values of data row \<open>i + 1\<close> of the file, field by field.\<close>

theorem Record_bounds_and_row_order:
  "(if 0 \<le> i \<and> i < NumRecord rf then Record rf i = Return (records rf ! nat i)
    else Record rf i = Panic) \<and>
   (Read E G (h, rf0) name = Return ((h', rf), None) \<longrightarrow> 0 \<le> i \<longrightarrow> i < NumRecord rf \<longrightarrow>
      (\<exists>lines t. ReadData E (set_defaults G rf0) name = Inr lines \<and> typeRecord rf = Some t \<and>
         int (length lines) = NumRecord rf + 1 \<and>
         Record rf i = Return (Ptr (length h + nat i)) \<and>
         length h + nat i < length h' \<and>
         length (lines ! (nat i + 1)) = length (Fields t) \<and>
         length (h' ! (length h + nat i)) = length (Fields t) \<and>
         (\<forall>j < length (Fields t).
            field_value E (Fields t ! j) (lines ! (nat i + 1) ! j) = Some (h' ! (length h + nat i) ! j))))"
proof (intro conjI impI)
  show "if 0 \<le> i \<and> i < NumRecord rf then Record rf i = Return (records rf ! nat i)
        else Record rf i = Panic"
    by (simp add: Record_def NumRecord_def)
next
  assume rd: "Read E G (h, rf0) name = Return ((h', rf), None)" and i0: "0 \<le> i" and i1: "i < NumRecord rf"
  from Read_success [OF rd] obtain lines t recs' idxs' where
    l: "ReadData E (set_defaults G rf0) name = Inr lines" "lines \<noteq> []"
    and t: "typeRecord rf0 = Some t" "SKind t = KStruct"
    and run: "row_loop E (Fields t) 1 (drop 1 lines) (start (Fields t) h lines) = Continues (h', recs', idxs')"
    and rf: "rf = (set_defaults G rf0)\<lparr>records := recs', indexes := idxs'\<rparr>"
    by blast
  note L = loaded_start [OF run]
  note H = loaded_heap [OF L] and R = loaded_recs [OF L]
  from rf have recs: "records rf = recs'" by simp
  from R(1) recs have n: "NumRecord rf = int (length lines) - 1"
    using l(2) by (cases lines) (simp_all add: NumRecord_def)
  from i0 i1 n have k: "nat i < length (drop 1 lines)" by simp
  from R(3) [OF k] have p: "recs' ! nat i = Ptr (length h + nat i)" by simp
  from k have row: "drop 1 lines ! nat i = lines ! (nat i + 1)" by simp
  note W = loaded_rows [OF L k, unfolded row]
  have "typeRecord rf = Some t" using rf t by (simp add: set_defaults_def)
  moreover have "int (length lines) = NumRecord rf + 1" using n by simp
  moreover have "Record rf i = Return (Ptr (length h + nat i))"
    using i0 i1 p recs by (simp add: Record_def NumRecord_def)
  moreover have "length h + nat i < length h'" using H(1) k by simp
  ultimately
  show "\<exists>lines t. ReadData E (set_defaults G rf0) name = Inr lines \<and> typeRecord rf = Some t \<and>
         int (length lines) = NumRecord rf + 1 \<and>
         Record rf i = Return (Ptr (length h + nat i)) \<and>
         length h + nat i < length h' \<and>
         length (lines ! (nat i + 1)) = length (Fields t) \<and>
         length (h' ! (length h + nat i)) = length (Fields t) \<and>
         (\<forall>j < length (Fields t).
            field_value E (Fields t ! j) (lines ! (nat i + 1) ! j) = Some (h' ! (length h + nat i) ! j))"
    using l(1) W by blast
qed


section \<open>The example of the spec\<close>

text \<open>The file of the spec's example scenario, the heap and the \<open>RecordFile\<close> after
  it is loaded into a new \<open>RecordFile\<close> for \<open>person\<close>.\<close>

definition people :: string where
  "people = ''#ignored comment'' @ eol @ ''Name~Age'' @ eol @ ''alice~30'' @ eol @ ''bob~25'' @ eol"

definition people_heap :: "(int, unit) heap" where
  "people_heap = [[PString ''alice'', PInt 30], [PString ''bob'', PInt 25]]"

definition people_loaded :: "(int, unit) RecordFile" where
  "people_loaded =
     \<lparr>Comma = ''~'', Comment = ''#'', LineEndStr = eol, typeRecord = Some person,
      records = [Ptr 0, Ptr 1],
      indexes = [[(Val tInt (PInt 30), Ptr 0), (Val tInt (PInt 25), Ptr 1)]]\<rparr>"

lemmas strconv_defs = ParseInt_def ParseUint_def base_prefix_def digit_def lower_def
  maxUint64_def int64_def neg64_def Let_def underscoreOK_def ParseBool_def

lemmas example_defs = example_env_def person_def tString_def tInt_def new_file_def
  set_defaults_def initial_globals_def eol_def

lemma people_ReadData:
  "ReadData (example_env people) (set_defaults initial_globals (new_file person)) ''people.txt'' =
     Inr [[''Name'', ''Age''], [''alice'', ''30''], [''bob'', ''25'']]"
  unfolding people_def by code_simp

lemma TrimSpace_examples:
  "TrimSpace ''30'' = ''30''" "TrimSpace ''25'' = ''25''" "TrimSpace ''  '' = []"
  "TrimSpace [] = []" "TrimSpace ''abc'' = ''abc''" "TrimSpace ''300'' = ''300''"
  by code_simp+

lemma people_rows:
  "row_loop (example_env people) (Fields person) 1 [[''alice'', ''30''], [''bob'', ''25'']]
     (start (Fields person) [] [[''Name'', ''Age''], [''alice'', ''30''], [''bob'', ''25'']]) =
   Continues (people_heap, [Ptr 0, Ptr 1],
      [[(Val tInt (PInt 30), Ptr 0), (Val tInt (PInt 25), Ptr 1)]])"
  by (simp add: start_def CanSet_def coerce_def zero_def Bits_def SetInt_def people_heap_def
        example_defs TrimSpace_examples strconv_defs)

lemma people_Read:
  "Read (example_env people) initial_globals ([], new_file person) ''people.txt'' =
     Return ((people_heap, people_loaded), None)"
proof -
  have t: "typeRecord (new_file person :: (int, unit) RecordFile) = Some person"
    by (simp add: new_file_def)
  have k: "SKind person = KStruct" by (simp add: person_def)
  have "Read (example_env people) initial_globals ([], new_file person) ''people.txt'' =
     (case row_loop (example_env people) (Fields person) 1
             (drop 1 [[''Name'', ''Age''], [''alice'', ''30''], [''bob'', ''25'']])
             (start (Fields person) [] [[''Name'', ''Age''], [''alice'', ''30''], [''bob'', ''25'']]) of
        Panics \<Rightarrow> Panic
      | Returns err (h', recs', idxs') \<Rightarrow>
          Return ((h', set_defaults initial_globals (new_file person)), Some err)
      | Continues (h', recs', idxs') \<Rightarrow>
          Return ((h', (set_defaults initial_globals (new_file person))
                        \<lparr>records := recs', indexes := idxs'\<rparr>), None))"
    by (rule Read_rows [OF people_ReadData _ t k]) simp
  also have "drop 1 [[''Name'', ''Age''], [''alice'', ''30''], [''bob'', ''25'']]
      = [[''alice'', ''30''], [''bob'', ''25'']]" by simp
  finally show ?thesis
    unfolding people_rows
    by (simp add: people_loaded_def set_defaults_def initial_globals_def new_file_def eol_def)
qed

text \<open>The theorem of claim C8 at the loaded example, at the positions 1, 2 and -1.\<close>

theorem Record_bounds_and_row_order_witness:
  "Read (example_env people) initial_globals ([], new_file person) ''people.txt'' =
     Return ((people_heap, people_loaded), None) \<and>
   NumRecord people_loaded = 2 \<and>
   Record people_loaded 1 = Return (Ptr 1) \<and>
   people_heap ! 1 = [PString ''bob'', PInt 25] \<and>
   field_value (example_env people) (Fields person ! 1) ''25'' = Some (PInt 25) \<and>
   Record people_loaded 2 = Panic \<and> Record people_loaded (- 1) = Panic"
proof -
  have n: "NumRecord people_loaded = 2" by (simp add: NumRecord_def people_loaded_def)
  from Record_bounds_and_row_order [of 1 people_loaded "example_env people" initial_globals
      "[]" "new_file person" "''people.txt''" people_heap] people_Read n
  have a: "Record people_loaded 1 = Return (Ptr 1)" by auto
  from Record_bounds_and_row_order [of 2 people_loaded "example_env people" initial_globals
      "[]" "new_file person" "''people.txt''" people_heap] n
  have b: "Record people_loaded 2 = Panic" by simp
  from Record_bounds_and_row_order [of "- 1" people_loaded "example_env people" initial_globals
      "[]" "new_file person" "''people.txt''" people_heap]
  have c: "Record people_loaded (- 1) = Panic" by simp
  have d: "field_value (example_env people) (Fields person ! 1) ''25'' = Some (PInt 25)"
    by (simp add: field_value_def CanSet_def coerce_def zero_def Bits_def SetInt_def
          example_defs TrimSpace_examples strconv_defs)
  from people_Read n a b c d show ?thesis by (simp add: people_heap_def)
qed

text \<open>Claim C9.  \<open>Indexes(i)\<close> tests \<open>i >= len(rf.indexes)\<close> only.\<close>

lemma Indexes_cases:
  "Indexes rf i =
     (if int (length (indexes rf)) \<le> i then Return None
      else if i < 0 then Panic else Return (Some (indexes rf ! nat i)))"
  by (simp add: Indexes_def)

text \<open>Claim C9 at the loaded example, which has one index: slot 1 is outside the range
  and gives \<open>nil\<close>, slot 0 gives the index, but slot -1, outside the range too,
  panics.\<close>

theorem Indexes_negative_slot_panics:
  "indexes people_loaded = [[(Val tInt (PInt 30), Ptr 0), (Val tInt (PInt 25), Ptr 1)]] \<and>
   Indexes people_loaded (- 1) = Panic \<and>
   Indexes people_loaded 1 = Return None \<and>
   Indexes people_loaded 0 = Return (Some [(Val tInt (PInt 30), Ptr 0), (Val tInt (PInt 25), Ptr 1)])"
  by (simp add: Indexes_def people_loaded_def)

section \<open>A load that fails\<close>

text \<open>\<open>after_rows E fs h lines k\<close> is the loop over the rows of \<open>Read\<close>, run over the
  first \<open>k\<close> data rows only.\<close>

definition after_rows ::
  "('f, 'j) env \<Rightarrow> field list \<Rightarrow> ('f, 'j) heap \<Rightarrow> string list list \<Rightarrow> nat \<Rightarrow>
   (('f, 'j) heap \<times> ('f, 'j) iface list \<times> ('f, 'j) Index list) flow" where
  "after_rows E fs h lines k = row_loop E fs 1 (take k (drop 1 lines)) (start fs h lines)"

lemma observers_same:
  assumes "records rf' = records rf" and "indexes rf' = indexes rf"
  shows "NumRecord rf' = NumRecord rf" and "Record rf' i = Record rf i"
    and "Indexes rf' i = Indexes rf i" and "Index E rf' k = Index E rf k"
  using assms by (simp_all add: NumRecord_def Record_def Indexes_def Index_def)

text \<open>Claim C1.  If \<open>Read\<close> returns an error, the fields \<open>records\<close> and
  \<open>indexes\<close> are the ones before the call, so \<open>NumRecord\<close>, \<open>Record\<close>,
  \<open>Indexes\<close> and \<open>Index\<close> give what they gave before, and the structs that were on
  the heap are untouched.  The error is the first one met: either the error of
  reading the file, or the error of a data row \<open>k + 1\<close> before which all rows were
  loaded; the rows behind it play no part.\<close>

theorem Read_error_leaves_store:
  assumes "Read E G (h, rf) name = Return ((h', rf'), Some err)"
  shows "records rf' = records rf \<and> indexes rf' = indexes rf \<and> typeRecord rf' = typeRecord rf \<and>
    NumRecord rf' = NumRecord rf \<and> (\<forall>i. Record rf' i = Record rf i) \<and>
    (\<forall>i. Indexes rf' i = Indexes rf i) \<and> (\<forall>k. Index E rf' k = Index E rf k) \<and>
    length h \<le> length h' \<and> (\<forall>a < length h. h' ! a = h ! a) \<and>
    (ReadData E (set_defaults G rf) name = Inl err \<or>
     (\<exists>lines t k sm st'.
        ReadData E (set_defaults G rf) name = Inr lines \<and> typeRecord rf = Some t \<and>
        k < length lines - 1 \<and>
        after_rows E (Fields t) h lines k = Continues sm \<and>
        after_rows E (Fields t) h lines (Suc k) = Returns err st'))"
proof -
  note R = Read_error [OF assms]
  from R(1) have s: "records rf' = records rf" "indexes rf' = indexes rf"
    "typeRecord rf' = typeRecord rf"
    by (simp_all add: set_defaults_def)
  note O = observers_same [OF s(1,2)]
  have heap: "length h \<le> length h' \<and> (\<forall>a < length h. h' ! a = h ! a)"
    using R(2)
  proof
    assume "ReadData E (set_defaults G rf) name = Inl err \<and> h' = h"
    then show ?thesis by simp
  next
    assume "\<exists>lines t recs' idxs'. ReadData E (set_defaults G rf) name = Inr lines \<and> lines \<noteq> [] \<and>
            typeRecord rf = Some t \<and> SKind t = KStruct \<and>
            row_loop E (Fields t) 1 (drop 1 lines) (start (Fields t) h lines) = Returns err (h', recs', idxs')"
    then obtain lines and t :: stype and recs' idxs' where
      "row_loop E (Fields t) 1 (drop 1 lines) (start (Fields t) h lines) = Returns err (h', recs', idxs')"
      by blast
    from row_loop_Returns_heap [OF this [unfolded start_def]] show ?thesis by simp
  qed
  have first: "ReadData E (set_defaults G rf) name = Inl err \<or>
     (\<exists>lines t k sm st'.
        ReadData E (set_defaults G rf) name = Inr lines \<and> typeRecord rf = Some t \<and>
        k < length lines - 1 \<and>
        after_rows E (Fields t) h lines k = Continues sm \<and>
        after_rows E (Fields t) h lines (Suc k) = Returns err st')"
    using R(2)
  proof
    assume "ReadData E (set_defaults G rf) name = Inl err \<and> h' = h"
    then show ?thesis by simp
  next
    assume "\<exists>lines t recs' idxs'. ReadData E (set_defaults G rf) name = Inr lines \<and> lines \<noteq> [] \<and>
            typeRecord rf = Some t \<and> SKind t = KStruct \<and>
            row_loop E (Fields t) 1 (drop 1 lines) (start (Fields t) h lines) = Returns err (h', recs', idxs')"
    then obtain lines t recs' idxs' where
      l: "ReadData E (set_defaults G rf) name = Inr lines" "typeRecord rf = Some t" and
      r: "row_loop E (Fields t) 1 (drop 1 lines) (start (Fields t) h lines) = Returns err (h', recs', idxs')"
      by auto
    from row_loop_Returns_split [OF r] obtain k sm where
      k: "k < length (drop 1 lines)"
         "row_loop E (Fields t) 1 (take k (drop 1 lines)) (start (Fields t) h lines) = Continues sm"
         "row_loop E (Fields t) 1 (take (Suc k) (drop 1 lines)) (start (Fields t) h lines)
            = Returns err (h', recs', idxs')"
      by blast
    from k(1) have "k < length lines - 1" by simp
    with l k(2,3) show ?thesis unfolding after_rows_def by blast
  qed
  from s O heap first show ?thesis by blast
qed


definition people_dup :: string where
  "people_dup = ''Name~Age'' @ eol @ ''alice~30'' @ eol @ ''carol~30'' @ eol"

lemma people_dup_ReadData:
  "ReadData (example_env people_dup) (set_defaults initial_globals people_loaded) ''people.txt'' =
     Inr [[''Name'', ''Age''], [''alice'', ''30''], [''carol'', ''30'']]"
  unfolding people_dup_def people_loaded_def by code_simp

lemma people_loaded_defaults: "set_defaults G people_loaded = people_loaded"
  by (simp add: set_defaults_def people_loaded_def eol_def)

lemma people_dup_rows:
  "row_loop (example_env people_dup) (Fields person) 1 [[''alice'', ''30''], [''carol'', ''30'']]
     (start (Fields person) people_heap [[''Name'', ''Age''], [''alice'', ''30''], [''carol'', ''30'']]) =
   Returns (DuplicateIndexError 2 1)
     (people_heap @ [[PString ''alice'', PInt 30], [PString ''carol'', PInt 30]], [Ptr 2, Ptr 3],
      [[(Val tInt (PInt 30), Ptr 2)]])"
  by (simp add: start_def CanSet_def coerce_def zero_def Bits_def SetInt_def people_heap_def
        example_defs TrimSpace_examples strconv_defs)

lemma people_dup_Read:
  "Read (example_env people_dup) initial_globals (people_heap, people_loaded) ''people.txt'' =
     Return ((people_heap @ [[PString ''alice'', PInt 30], [PString ''carol'', PInt 30]], people_loaded),
             Some (DuplicateIndexError 2 1))"
proof -
  have t: "typeRecord people_loaded = Some person" by (simp add: people_loaded_def)
  have k: "SKind person = KStruct" by (simp add: person_def)
  have "Read (example_env people_dup) initial_globals (people_heap, people_loaded) ''people.txt'' =
     (case row_loop (example_env people_dup) (Fields person) 1
             (drop 1 [[''Name'', ''Age''], [''alice'', ''30''], [''carol'', ''30'']])
             (start (Fields person) people_heap [[''Name'', ''Age''], [''alice'', ''30''], [''carol'', ''30'']]) of
        Panics \<Rightarrow> Panic
      | Returns err (h', recs', idxs') \<Rightarrow>
          Return ((h', set_defaults initial_globals people_loaded), Some err)
      | Continues (h', recs', idxs') \<Rightarrow>
          Return ((h', (set_defaults initial_globals people_loaded)
                        \<lparr>records := recs', indexes := idxs'\<rparr>), None))"
    by (rule Read_rows [OF people_dup_ReadData _ t k]) simp
  also have "drop 1 [[''Name'', ''Age''], [''alice'', ''30''], [''carol'', ''30'']]
      = [[''alice'', ''30''], [''carol'', ''30'']]" by simp
  finally show ?thesis
    unfolding people_dup_rows by (simp add: people_loaded_defaults)
qed

text \<open>The theorem at a second load into the loaded example, of a file with a
  duplicate key in its second data row.\<close>

theorem Read_error_leaves_store_witness:
  "Read (example_env people_dup) initial_globals (people_heap, people_loaded) ''people.txt'' =
     Return ((people_heap @ [[PString ''alice'', PInt 30], [PString ''carol'', PInt 30]], people_loaded),
             Some (DuplicateIndexError 2 1)) \<and>
   NumRecord people_loaded = 2 \<and>
   Record people_loaded 1 = Return (Ptr 1) \<and>
   (people_heap @ [[PString ''alice'', PInt 30], [PString ''carol'', PInt 30]]) ! 1 = people_heap ! 1 \<and>
   Index (example_env people_dup) people_loaded (Val tInt (PInt 25)) = Return (Ptr 1) \<and>
   (\<exists>k sm st'. k < 2 \<and>
      after_rows (example_env people_dup) (Fields person) people_heap
         [[''Name'', ''Age''], [''alice'', ''30''], [''carol'', ''30'']] k = Continues sm \<and>
      after_rows (example_env people_dup) (Fields person) people_heap
         [[''Name'', ''Age''], [''alice'', ''30''], [''carol'', ''30'']] (Suc k)
        = Returns (DuplicateIndexError 2 1) st')"
proof -
  note T = Read_error_leaves_store [OF people_dup_Read]
  have a: "NumRecord people_loaded = 2" "Record people_loaded 1 = Return (Ptr 1)"
    by (simp_all add: NumRecord_def Record_def people_loaded_def)
  have b: "Index (example_env people_dup) people_loaded (Val tInt (PInt 25)) = Return (Ptr 1)"
    by (simp add: Index_def Indexes_def people_loaded_def tInt_def)
  from T have c: "(people_heap @ [[PString ''alice'', PInt 30], [PString ''carol'', PInt 30]]) ! 1 = people_heap ! 1"
    by (simp add: people_heap_def)
  let ?lines = "[[''Name'', ''Age''], [''alice'', ''30''], [''carol'', ''30'']]"
  from T people_dup_ReadData obtain lines t k sm st' where
    e: "ReadData (example_env people_dup) people_loaded ''people.txt'' = Inr lines"
       "typeRecord people_loaded = Some t" "k < length lines - 1"
       "after_rows (example_env people_dup) (Fields t) people_heap lines k = Continues sm"
       "after_rows (example_env people_dup) (Fields t) people_heap lines (Suc k)
          = Returns (DuplicateIndexError 2 1) st'"
    unfolding people_loaded_defaults by auto
  from e(1) people_dup_ReadData have l: "lines = ?lines"
    by (simp add: people_loaded_defaults)
  from e(2) have t: "t = person" by (simp add: people_loaded_def)
  from e(3) l have k: "k < 2" by simp
  have d: "\<exists>k sm st'. k < 2 \<and>
      after_rows (example_env people_dup) (Fields person) people_heap ?lines k = Continues sm \<and>
      after_rows (example_env people_dup) (Fields person) people_heap ?lines (Suc k)
        = Returns (DuplicateIndexError 2 1) st'"
    using e(4,5) k unfolding l t by blast
  from people_dup_Read a b c d show ?thesis by blast
qed

section \<open>The header row\<close>

text \<open>The loops of \<open>Read\<close> do not read files: they are the same in an environment
  that differs in \<open>ReadAll\<close> only.\<close>

lemma payload_eq_ReadAll: "payload_eq (E\<lparr>ReadAll := r\<rparr>) p q = payload_eq E p q"
  by (induction E p q rule: payload_eq.induct) simp_all

lemma key_eq_ReadAll: "key_eq (E\<lparr>ReadAll := r\<rparr>) k k' = key_eq E k k'"
  by (induction E k k' rule: key_eq.induct) (simp_all add: payload_eq_ReadAll)

lemma hashable_ReadAll: "hashable (E\<lparr>ReadAll := r\<rparr>) k = hashable E k"
  by (induction E k rule: hashable.induct) simp_all

lemma map_lookup_ReadAll: "map_lookup (E\<lparr>ReadAll := r\<rparr>) m k = map_lookup E m k"
  by (induction m) (auto simp: key_eq_ReadAll)

lemma map_assign_ReadAll: "map_assign (E\<lparr>ReadAll := r\<rparr>) m k v = map_assign E m k v"
  by (induction m) (auto simp: key_eq_ReadAll)

lemma Bits_ReadAll: "Bits (E\<lparr>ReadAll := r\<rparr>) k = Bits E k"
  by (simp add: Bits_def)

lemma coerce_ReadAll: "coerce (E\<lparr>ReadAll := r\<rparr>) f cur tok = coerce E f cur tok"
  unfolding coerce_def Bits_ReadAll Let_def
  by (simp cong: if_cong sum.case_cong prod.case_cong option.case_cong payload.case_cong)

lemma zero_ReadAll: "zero (E\<lparr>ReadAll := r\<rparr>) t = zero E t"
  unfolding zero_def Let_def by (simp cong: if_cong)

lemma field_loop_ReadAll:
  "field_loop (E\<lparr>ReadAll := r\<rparr>) n a rec line fs i iIndex st = field_loop E n a rec line fs i iIndex st"
proof (induction fs arbitrary: i iIndex st)
  case Nil
  show ?case by (cases st) simp
next
  case (Cons f fs)
  obtain h idxs where st: "st = (h, idxs)" by (cases st)
  show ?case
    unfolding st
    by (simp add: Cons.IH coerce_ReadAll hashable_ReadAll map_lookup_ReadAll map_assign_ReadAll
          Let_def cong: sum.case_cong if_cong)
qed

lemma row_loop_ReadAll:
  "row_loop (E\<lparr>ReadAll := r\<rparr>) fs n rows st = row_loop E fs n rows st"
proof (induction rows arbitrary: n st)
  case Nil
  show ?case by (cases st) simp
next
  case (Cons line rows)
  obtain h recs idxs where st: "st = (h, recs, idxs)" by (cases st)
  show ?case
    unfolding st
    by (simp add: Cons.IH field_loop_ReadAll zero_ReadAll Let_def cong: flow.case_cong if_cong)
qed

text \<open>Claim C2.  After a load without error \<open>NumRecord()\<close> is the number of rows
  the tokenizer retains, less one.  The first retained row is never decoded: a file
  whose retained rows differ in the first row only (whatever that row is) loads to
  the same heap and the same \<open>RecordFile\<close>.\<close>

theorem NumRecord_counts_rows_but_header:
  assumes "Read E G (h, rf) name = Return ((h', rf'), None)"
  shows "\<exists>content hdr rows.
           ReadAll E name = Inr content \<and>
           Tokenizer (Comma rf') (Comment rf') (LineEndStr rf') content = hdr # rows \<and>
           NumRecord rf' = int (length (hdr # rows)) - 1 \<and>
           (\<forall>content' hdr'.
              Tokenizer (Comma rf') (Comment rf') (LineEndStr rf') content' = hdr' # rows \<longrightarrow>
              Read (E\<lparr>ReadAll := \<lambda>name. Inr content'\<rparr>) G (h, rf) name = Return ((h', rf'), None))"
proof -
  from Read_success [OF assms] obtain lines t recs' idxs' where
    l: "ReadData E (set_defaults G rf) name = Inr lines" "lines \<noteq> []"
    and t: "typeRecord rf = Some t" "SKind t = KStruct"
    and run: "row_loop E (Fields t) 1 (drop 1 lines) (start (Fields t) h lines) = Continues (h', recs', idxs')"
    and rf': "rf' = (set_defaults G rf)\<lparr>records := recs', indexes := idxs'\<rparr>"
    by blast
  from rf' have cfg: "Comma rf' = Comma (set_defaults G rf)" "Comment rf' = Comment (set_defaults G rf)"
    "LineEndStr rf' = LineEndStr (set_defaults G rf)"
    by simp_all
  from l(1) obtain content where c: "ReadAll E name = Inr content"
    and tok: "Tokenizer (Comma rf') (Comment rf') (LineEndStr rf') content = lines"
    unfolding cfg by (auto simp: ReadData_Tokenizer split: sum.splits)
  from l(2) obtain hdr rows where hr: "lines = hdr # rows" by (cases lines) auto
  note L = loaded_start [OF run]
  from loaded_recs(1) [OF L] rf' have n: "NumRecord rf' = int (length (hdr # rows)) - 1"
    by (simp add: NumRecord_def hr)
  have indep: "\<forall>content' hdr'.
              Tokenizer (Comma rf') (Comment rf') (LineEndStr rf') content' = hdr' # rows \<longrightarrow>
              Read (E\<lparr>ReadAll := \<lambda>name. Inr content'\<rparr>) G (h, rf) name = Return ((h', rf'), None)"
  proof (intro allI impI)
    fix content' hdr'
    assume tok': "Tokenizer (Comma rf') (Comment rf') (LineEndStr rf') content' = hdr' # rows"
    let ?E' = "E\<lparr>ReadAll := \<lambda>name. Inr content'\<rparr>"
    have rd': "ReadData ?E' (set_defaults G rf) name = Inr (hdr' # rows)"
      using tok' unfolding cfg by (simp add: ReadData_Tokenizer)
    have st: "start (Fields t) h (hdr' # rows) = start (Fields t) h lines"
      by (simp add: start_def hr)
    have "Read ?E' G (h, rf) name =
       (case row_loop ?E' (Fields t) 1 (drop 1 (hdr' # rows)) (start (Fields t) h (hdr' # rows)) of
          Panics \<Rightarrow> Panic
        | Returns err (h', recs', idxs') \<Rightarrow> Return ((h', set_defaults G rf), Some err)
        | Continues (h', recs', idxs') \<Rightarrow>
            Return ((h', (set_defaults G rf)\<lparr>records := recs', indexes := idxs'\<rparr>), None))"
      by (rule Read_rows [OF rd' _ t]) simp
    also have "row_loop ?E' (Fields t) 1 (drop 1 (hdr' # rows)) (start (Fields t) h (hdr' # rows))
        = Continues (h', recs', idxs')"
      unfolding st row_loop_ReadAll using run by (simp add: hr)
    finally show "Read ?E' G (h, rf) name = Return ((h', rf'), None)"
      by (simp add: rf')
  qed
  from c tok hr n indep show ?thesis by blast
qed


text \<open>The example file with another header row.\<close>

definition people_titled :: string where
  "people_titled = ''Who~Years'' @ eol @ ''alice~30'' @ eol @ ''bob~25'' @ eol"

lemma people_titled_ReadData:
  "ReadData (example_env people_titled) (set_defaults initial_globals (new_file person)) ''people.txt'' =
     Inr [[''Who'', ''Years''], [''alice'', ''30''], [''bob'', ''25'']]"
  unfolding people_titled_def by code_simp

lemma people_loaded_config:
  "Comma (set_defaults initial_globals (new_file person)) = Comma people_loaded"
  "Comment (set_defaults initial_globals (new_file person)) = Comment people_loaded"
  "LineEndStr (set_defaults initial_globals (new_file person)) = LineEndStr people_loaded"
  by (simp_all add: people_loaded_def set_defaults_def initial_globals_def new_file_def eol_def)

text \<open>The theorem of claim C2 at the example and at the example with the other
  header.\<close>

theorem NumRecord_counts_rows_but_header_witness:
  "Read (example_env people) initial_globals ([], new_file person) ''people.txt'' =
     Return ((people_heap, people_loaded), None) \<and>
   Tokenizer (Comma people_loaded) (Comment people_loaded) (LineEndStr people_loaded) people =
     [[''Name'', ''Age''], [''alice'', ''30''], [''bob'', ''25'']] \<and>
   NumRecord people_loaded = 2 \<and>
   Tokenizer (Comma people_loaded) (Comment people_loaded) (LineEndStr people_loaded) people_titled =
     [[''Who'', ''Years''], [''alice'', ''30''], [''bob'', ''25'']] \<and>
   Read ((example_env people)\<lparr>ReadAll := \<lambda>name. Inr people_titled\<rparr>) initial_globals
        ([], new_file person) ''people.txt'' =
     Return ((people_heap, people_loaded), None)"
proof -
  have ra: "\<And>c. ReadAll (example_env c) ''people.txt'' = Inr c" by (simp add: example_env_def)
  have tok: "Tokenizer (Comma people_loaded) (Comment people_loaded) (LineEndStr people_loaded) people =
     [[''Name'', ''Age''], [''alice'', ''30''], [''bob'', ''25'']]"
    using people_ReadData by (simp add: ReadData_Tokenizer ra people_loaded_config)
  have tok': "Tokenizer (Comma people_loaded) (Comment people_loaded) (LineEndStr people_loaded) people_titled =
     [[''Who'', ''Years''], [''alice'', ''30''], [''bob'', ''25'']]"
    using people_titled_ReadData by (simp add: ReadData_Tokenizer ra people_loaded_config)
  from NumRecord_counts_rows_but_header [OF people_Read] obtain content hdr rows where
    c: "ReadAll (example_env people) ''people.txt'' = Inr content"
       "Tokenizer (Comma people_loaded) (Comment people_loaded) (LineEndStr people_loaded) content = hdr # rows"
       "NumRecord people_loaded = int (length (hdr # rows)) - 1"
       "\<And>content' hdr'.
          Tokenizer (Comma people_loaded) (Comment people_loaded) (LineEndStr people_loaded) content' = hdr' # rows \<Longrightarrow>
          Read ((example_env people)\<lparr>ReadAll := \<lambda>name. Inr content'\<rparr>) initial_globals
             ([], new_file person) ''people.txt'' = Return ((people_heap, people_loaded), None)"
    by blast
  from c(1) have "content = people" by (simp add: ra)
  with c(2) tok have rows: "rows = [[''alice'', ''30''], [''bob'', ''25'']]" by simp
  from c(3) rows have n: "NumRecord people_loaded = 2" by simp
  from c(4) [of people_titled "[''Who'', ''Years'']"] tok' rows
  have "Read ((example_env people)\<lparr>ReadAll := \<lambda>name. Inr people_titled\<rparr>) initial_globals
        ([], new_file person) ''people.txt'' = Return ((people_heap, people_loaded), None)"
    by simp
  with people_Read tok tok' n show ?thesis by blast
qed

section \<open>A load that comes to a row\<close>

text \<open>When the rows before data row \<open>n\<close> are loaded, \<open>Read\<close> is the loop over the
  rows from row \<open>n\<close> on, in the state these rows have left.\<close>

lemma row_loop_first:
  assumes "n - 1 < length rm"
  shows "row_loop E fs n (line # rows) (hm, rm, im) =
     (if length line \<noteq> length fs
      then Returns (FormatError n (length line) (length fs))
             (hm @ [map (\<lambda>f. zero E (Type f)) fs], rm[n - 1 := Ptr (length hm)], im)
      else case field_loop E n (length hm) (Ptr (length hm)) line fs 0 0
                  (hm @ [map (\<lambda>f. zero E (Type f)) fs], im) of
             Panics \<Rightarrow> Panics
           | Returns err (h2, i2) \<Rightarrow> Returns err (h2, rm[n - 1 := Ptr (length hm)], i2)
           | Continues (h2, i2) \<Rightarrow> row_loop E fs (Suc n) rows (h2, rm[n - 1 := Ptr (length hm)], i2))"
  using assms by (simp add: Let_def del: One_nat_def)

lemma Read_at_row:
  assumes rd: "ReadData E (set_defaults G rf) name = Inr lines"
    and t: "typeRecord rf = Some t" "SKind t = KStruct"
    and n: "1 \<le> n" "n < length lines"
    and before: "after_rows E (Fields t) h lines (n - 1) = Continues (hm, rm, im)"
  shows "Read E G (h, rf) name =
     (case row_loop E (Fields t) n (lines ! n # drop (Suc n) lines) (hm, rm, im) of
        Panics \<Rightarrow> Panic
      | Returns err (h', recs', idxs') \<Rightarrow> Return ((h', set_defaults G rf), Some err)
      | Continues (h', recs', idxs') \<Rightarrow>
          Return ((h', (set_defaults G rf)\<lparr>records := recs', indexes := idxs'\<rparr>), None))"
    and "loaded E (Fields t) 1 (take (n - 1) (drop 1 lines))
           (h, replicate (length lines - 1) Nil, map (\<lambda>f. []) (filter (\<lambda>f. Tag f = ''index'') (Fields t)))
           (hm, rm, im)"
    and "n - 1 < length rm"
proof -
  from n have ne: "lines \<noteq> []" by auto
  have split: "drop 1 lines = take (n - 1) (drop 1 lines) @ (lines ! n # drop (Suc n) lines)"
  proof -
    have "drop (n - 1) (drop 1 lines) = drop n lines" using n by simp
    also have "\<dots> = lines ! n # drop (Suc n) lines" using n by (simp add: Cons_nth_drop_Suc)
    finally have "drop (n - 1) (drop 1 lines) = lines ! n # drop (Suc n) lines" .
    then show ?thesis by (metis append_take_drop_id)
  qed
  have len: "1 + length (take (n - 1) (drop 1 lines)) = n" using n by simp
  have "row_loop E (Fields t) 1 (drop 1 lines) (start (Fields t) h lines) =
        row_loop E (Fields t) n (lines ! n # drop (Suc n) lines) (hm, rm, im)"
    using before [unfolded after_rows_def]
    by (subst split, simp only: row_loop_append len flow.case)
  with Read_rows [OF rd ne t, of h]
  show "Read E G (h, rf) name =
     (case row_loop E (Fields t) n (lines ! n # drop (Suc n) lines) (hm, rm, im) of
        Panics \<Rightarrow> Panic
      | Returns err (h', recs', idxs') \<Rightarrow> Return ((h', set_defaults G rf), Some err)
      | Continues (h', recs', idxs') \<Rightarrow>
          Return ((h', (set_defaults G rf)\<lparr>records := recs', indexes := idxs'\<rparr>), None))"
    by simp
  from loaded_start [OF before [unfolded after_rows_def]]
  show L: "loaded E (Fields t) 1 (take (n - 1) (drop 1 lines))
           (h, replicate (length lines - 1) Nil, map (\<lambda>f. []) (filter (\<lambda>f. Tag f = ''index'') (Fields t)))
           (hm, rm, im)" .
  from loaded_recs(1) [OF L] n show "n - 1 < length rm" by simp
qed

lemma Read_no_success_unchanged:
  assumes "Read E G (h, rf) name = Return ((h', rf'), e)"
    and "\<And>h' rf'. Read E G (h, rf) name \<noteq> Return ((h', rf'), None)"
  shows "records rf' = records rf" and "indexes rf' = indexes rf"
proof -
  from assms obtain err where "e = Some err" by (cases e) auto
  with assms(1) Read_error(1) [of E G h rf name h' rf' err]
  show "records rf' = records rf" and "indexes rf' = indexes rf"
    by (simp_all add: set_defaults_def)
qed

lemma Read_success_rows:
  assumes "Read E G (h, rf) name = Return ((h', rf'), None)"
    and "ReadData E (set_defaults G rf) name = Inr lines" and "typeRecord rf = Some t"
  shows "loaded E (Fields t) 1 (drop 1 lines)
           (h, replicate (length lines - 1) Nil, map (\<lambda>f. []) (filter (\<lambda>f. Tag f = ''index'') (Fields t)))
           (h', records rf', indexes rf')"
proof -
  from Read_success [OF assms(1)] obtain lines' t' recs' idxs' where
    l: "ReadData E (set_defaults G rf) name = Inr lines'" "lines' \<noteq> []"
    and t: "typeRecord rf = Some t'" "SKind t' = KStruct"
    and run: "row_loop E (Fields t') 1 (drop 1 lines') (start (Fields t') h lines') = Continues (h', recs', idxs')"
    and rf': "rf' = (set_defaults G rf)\<lparr>records := recs', indexes := idxs'\<rparr>"
    by blast
  from l(1) assms(2) have ll: "lines' = lines" by simp
  from t(1) assms(3) have tt: "t' = t" by simp
  from rf' have r: "records rf' = recs'" "indexes rf' = idxs'" by simp_all
  show ?thesis using loaded_start [OF run] unfolding ll tt r .
qed

text \<open>Claim C5.  For every data row \<open>n\<close> (the rows are counted from 1, the header
  being row 0) whose number of tokens is not the number of fields: the load does not
  succeed, and whatever \<open>Read\<close> returns, \<open>records\<close> and \<open>indexes\<close> are as before,
  so no record of the row is to be seen; and when the rows before \<open>n\<close> are loaded,
  the error returned is the FormatError with \<open>n\<close>, the number of tokens and the
  number of fields.\<close>

theorem FormatError_at_short_or_long_row:
  assumes "ReadData E (set_defaults G rf) name = Inr lines"
    and "typeRecord rf = Some t" and "SKind t = KStruct"
    and "1 \<le> n" and "n < length lines"
    and "length (lines ! n) \<noteq> length (Fields t)"
  shows "(\<forall>h' rf'. Read E G (h, rf) name \<noteq> Return ((h', rf'), None)) \<and>
         (\<forall>h' rf' e. Read E G (h, rf) name = Return ((h', rf'), e) \<longrightarrow>
            records rf' = records rf \<and> indexes rf' = indexes rf) \<and>
         (\<forall>sm. after_rows E (Fields t) h lines (n - 1) = Continues sm \<longrightarrow>
            (\<exists>h'. Read E G (h, rf) name =
                    Return ((h', set_defaults G rf),
                            Some (FormatError n (length (lines ! n)) (length (Fields t))))))"
proof (intro conjI allI impI)
  have fails: "\<And>h' rf'. Read E G (h, rf) name \<noteq> Return ((h', rf'), None)"
  proof
    fix h' rf' assume ok: "Read E G (h, rf) name = Return ((h', rf'), None)"
    note L = Read_success_rows [OF ok assms(1,2)]
    from assms(4,5) have k: "n - 1 < length (drop 1 lines)" by simp
    from assms(4,5) have "drop 1 lines ! (n - 1) = lines ! n" by simp
    with loaded_rows(1) [OF L k] assms(6) show False by simp
  qed
  then show "\<And>h' rf'. Read E G (h, rf) name \<noteq> Return ((h', rf'), None)" .
  show "\<And>h' rf' e. Read E G (h, rf) name = Return ((h', rf'), e) \<Longrightarrow> records rf' = records rf"
    by (rule Read_no_success_unchanged(1) [OF _ fails])
  show "\<And>h' rf' e. Read E G (h, rf) name = Return ((h', rf'), e) \<Longrightarrow> indexes rf' = indexes rf"
    by (rule Read_no_success_unchanged(2) [OF _ fails])
next
  fix sm assume before: "after_rows E (Fields t) h lines (n - 1) = Continues sm"
  obtain hm rm im where sm: "sm = (hm, rm, im)" by (cases sm)
  note A = Read_at_row [OF assms(1-5) before [unfolded sm]]
  from A(1) assms(6) row_loop_first [OF A(3), of E "Fields t" "lines ! n"]
  have "Read E G (h, rf) name =
          Return ((hm @ [map (\<lambda>f. zero E (Type f)) (Fields t)], set_defaults G rf),
                  Some (FormatError n (length (lines ! n)) (length (Fields t))))"
    by simp
  then show "\<exists>h'. Read E G (h, rf) name =
                    Return ((h', set_defaults G rf),
                            Some (FormatError n (length (lines ! n)) (length (Fields t))))"
    by blast
qed

text \<open>The variant of the spec's example with the short row \<open>dave\<close>.\<close>

definition people_short :: string where
  "people_short = ''Name~Age'' @ eol @ ''alice~30'' @ eol @ ''dave'' @ eol"

lemma people_short_ReadData:
  "ReadData (example_env people_short) (set_defaults initial_globals (new_file person)) ''people.txt'' =
     Inr [[''Name'', ''Age''], [''alice'', ''30''], [''dave'']]"
  unfolding people_short_def by code_simp

lemma people_short_before:
  "after_rows (example_env people_short) (Fields person) []
      [[''Name'', ''Age''], [''alice'', ''30''], [''dave'']] 1 =
   Continues ([[PString ''alice'', PInt 30]], [Ptr 0, Nil], [[(Val tInt (PInt 30), Ptr 0)]])"
  by (simp add: after_rows_def start_def CanSet_def coerce_def zero_def Bits_def SetInt_def
        example_defs TrimSpace_examples strconv_defs)

text \<open>The theorem of claim C5 at that file: row 2 has one token, the struct two
  fields.\<close>

theorem FormatError_at_short_or_long_row_witness:
  "ReadData (example_env people_short) (set_defaults initial_globals (new_file person)) ''people.txt'' =
     Inr [[''Name'', ''Age''], [''alice'', ''30''], [''dave'']] \<and>
   length ([[''Name'', ''Age''], [''alice'', ''30''], [''dave'']] ! 2) = 1 \<and>
   length (Fields person) = 2 \<and>
   (\<exists>h'. Read (example_env people_short) initial_globals ([], new_file person) ''people.txt'' =
      Return ((h', set_defaults initial_globals (new_file person)), Some (FormatError 2 1 2)))"
proof -
  let ?lines = "[[''Name'', ''Age''], [''alice'', ''30''], [''dave'']]"
  have t: "typeRecord (new_file person :: (int, unit) RecordFile) = Some person"
    by (simp add: new_file_def)
  have k: "SKind person = KStruct" by (simp add: person_def)
  have l: "length (?lines ! 2) = 1" "length (Fields person) = 2" by (simp_all add: person_def)
  have ne: "length (?lines ! 2) \<noteq> length (Fields person)" by (simp add: person_def)
  have b: "after_rows (example_env people_short) (Fields person) [] ?lines (2 - 1) =
     Continues ([[PString ''alice'', PInt 30]], [Ptr 0, Nil], [[(Val tInt (PInt 30), Ptr 0)]])"
    using people_short_before by simp
  from FormatError_at_short_or_long_row [OF people_short_ReadData t k _ _ ne, of "[]"] b l
  have "\<exists>h'. Read (example_env people_short) initial_globals ([], new_file person) ''people.txt'' =
      Return ((h', set_defaults initial_globals (new_file person)), Some (FormatError 2 1 2))"
    by simp
  with people_short_ReadData l show ?thesis by blast
qed

section \<open>Duplicate keys\<close>

text \<open>\<open>after_fields E fs n line sm i\<close> is the loop over the fields of data row \<open>n\<close>,
  entered in the state \<open>sm\<close> that the rows before have left, and run over the
  first \<open>i\<close> fields only.\<close>

definition after_fields ::
  "('f, 'j) env \<Rightarrow> field list \<Rightarrow> nat \<Rightarrow> string list \<Rightarrow>
   ('f, 'j) heap \<times> ('f, 'j) iface list \<times> ('f, 'j) Index list \<Rightarrow> nat \<Rightarrow>
   (('f, 'j) heap \<times> ('f, 'j) Index list) flow" where
  "after_fields E fs n line sm i =
     (case sm of (hm, rm, im) \<Rightarrow>
        field_loop E n (length hm) (Ptr (length hm)) line (take i fs) 0 0
          (hm @ [map (\<lambda>f. zero E (Type f)) fs], im))"

lemma indexed_slots:
  "length (filter indexed fs) \<le> length (filter (\<lambda>f. Tag f = ''index'') fs)"
proof -
  have "filter indexed fs = filter CanSet (filter (\<lambda>f. Tag f = ''index'') fs)"
    by (induction fs) (auto simp: indexed_def)
  then show ?thesis by (metis length_filter_le)
qed

text \<open>When the fields before field \<open>i\<close> are passed, the loop over the fields is
  its turn for field \<open>i\<close> and what follows; field \<open>i\<close> still holds its zero value
  and its index is as the rows before have left it.\<close>

lemma field_loop_at_field:
  assumes i: "i < length fs"
    and pre: "field_loop E n a rec line (take i fs) 0 0 (h1, im) = Continues (h2, i2)"
    and a: "a < length h1" and len: "length fs \<le> length (h1 ! a)"
  shows "field_loop E n a rec line fs 0 0 (h1, im) =
     (case field_step E n a rec line (fs ! i) i (slot_of fs i) (h2, i2) of
        Panics \<Rightarrow> Panics
      | Returns err st' \<Rightarrow> Returns err st'
      | Continues st' \<Rightarrow>
          field_loop E n a rec line (drop (Suc i) fs) (Suc i)
            (if indexed (fs ! i) then Suc (slot_of fs i) else slot_of fs i) st')"
    and "h2 ! a ! i = h1 ! a ! i"
    and "length i2 = length im"
    and "\<forall>s. slot_of fs i \<le> s \<longrightarrow> i2 ! s = im ! s"
proof -
  have fs: "fs = take i fs @ fs ! i # drop (Suc i) fs"
    using i by (simp add: id_take_nth_drop)
  have li: "length (take i fs) = i" using i by simp
  have "field_loop E n a rec line fs 0 0 (h1, im) =
        field_loop E n a rec line (fs ! i # drop (Suc i) fs) i (slot_of fs i) (h2, i2)"
    by (subst fs, simp only: field_loop_append pre flow.case li slot_of_def add_0)
  then show "field_loop E n a rec line fs 0 0 (h1, im) =
     (case field_step E n a rec line (fs ! i) i (slot_of fs i) (h2, i2) of
        Panics \<Rightarrow> Panics
      | Returns err st' \<Rightarrow> Returns err st'
      | Continues st' \<Rightarrow>
          field_loop E n a rec line (drop (Suc i) fs) (Suc i)
            (if indexed (fs ! i) then Suc (slot_of fs i) else slot_of fs i) st')"
    by (simp only: field_loop_Cons)
  from field_loop_frame [of E n a rec line "take i fs" 0 0 h1 im h2 i2] pre a li
  show "h2 ! a ! i = h1 ! a ! i" and "length i2 = length im" by auto
  have l2: "0 + length (take i fs) \<le> length (h1 ! a)" using len i by simp
  from field_loop_idx [OF pre a l2]
  show "\<forall>s. slot_of fs i \<le> s \<longrightarrow> i2 ! s = im ! s"
    by (simp add: slot_of_def)
qed


lemma Read_at_field:
  assumes rd: "ReadData E (set_defaults G rf) name = Inr lines"
    and t: "typeRecord rf = Some t" "SKind t = KStruct"
    and n: "1 \<le> n" "n < length lines"
    and before: "after_rows E (Fields t) h lines (n - 1) = Continues (hm, rm, im)"
    and len: "length (lines ! n) = length (Fields t)"
    and i: "i < length (Fields t)"
    and pre: "after_fields E (Fields t) n (lines ! n) (hm, rm, im) i = Continues (h2, i2)"
  shows "\<And>err h3 i3.
           field_step E n (length hm) (Ptr (length hm)) (lines ! n) (Fields t ! i) i
             (slot_of (Fields t) i) (h2, i2) = Returns err (h3, i3) \<Longrightarrow>
           Read E G (h, rf) name = Return ((h3, set_defaults G rf), Some err)"
    and "h2 ! length hm ! i = zero E (Type (Fields t ! i))"
    and "indexed (Fields t ! i) \<Longrightarrow> slot_of (Fields t) i < length i2"
    and "indexed (Fields t ! i) \<Longrightarrow>
           i2 ! slot_of (Fields t) i = entries (Fields t) hm (length h) i (n - 1)"
    and "\<And>m. 1 \<le> m \<Longrightarrow> m < n \<Longrightarrow>
           field_value E (Fields t ! i) (lines ! m ! i) = Some (hm ! (length h + (m - 1)) ! i)"
proof -
  let ?fs = "Fields t"
  let ?h1 = "hm @ [map (\<lambda>f. zero E (Type f)) ?fs]"
  note A = Read_at_row [OF rd t n before]
  have a: "length hm < length ?h1" by simp
  have cell: "?h1 ! length hm = map (\<lambda>f. zero E (Type f)) ?fs" by simp
  then have l: "length ?fs \<le> length (?h1 ! length hm)" by simp
  note pre' = pre [unfolded after_fields_def prod.case]
  note F = field_loop_at_field [OF i pre' a l]
  show "\<And>err h3 i3.
           field_step E n (length hm) (Ptr (length hm)) (lines ! n) (?fs ! i) i
             (slot_of ?fs i) (h2, i2) = Returns err (h3, i3) \<Longrightarrow>
           Read E G (h, rf) name = Return ((h3, set_defaults G rf), Some err)"
  proof -
    fix err h3 i3
    assume st: "field_step E n (length hm) (Ptr (length hm)) (lines ! n) (?fs ! i) i
             (slot_of ?fs i) (h2, i2) = Returns err (h3, i3)"
    from F(1) st
    have "field_loop E n (length hm) (Ptr (length hm)) (lines ! n) ?fs 0 0 (?h1, im) = Returns err (h3, i3)"
      by simp
    with row_loop_first [OF A(3), of E ?fs "lines ! n" "drop (Suc n) lines" hm im] len
    have "row_loop E ?fs n (lines ! n # drop (Suc n) lines) (hm, rm, im) =
            Returns err (h3, rm[n - 1 := Ptr (length hm)], i3)"
      by simp
    with A(1) show "Read E G (h, rf) name = Return ((h3, set_defaults G rf), Some err)"
      by simp
  qed
  from F(2) cell i show "h2 ! length hm ! i = zero E (Type (?fs ! i))" by simp
  note I = loaded_idxs [OF A(2)]
  have n0: "length (map (\<lambda>f. []) (filter (\<lambda>f. Tag f = ''index'') ?fs) :: ('a, 'b) Index list)
              = length (filter (\<lambda>f. Tag f = ''index'') ?fs)"
    by simp
  {
    assume ix: "indexed (?fs ! i)"
    from slot_of_less [OF i ix] indexed_slots [of ?fs]
    have s: "slot_of ?fs i < length (filter (\<lambda>f. Tag f = ''index'') ?fs)" by simp
    with F(3) I(1) show "slot_of ?fs i < length i2" by simp
    from F(4) have "i2 ! slot_of ?fs i = im ! slot_of ?fs i" by simp
    also from loaded_slot(2) [OF A(2) i ix] s
    have "im ! slot_of ?fs i = entries ?fs hm (length h) i (n - 1)"
      using n by simp
    finally show "i2 ! slot_of ?fs i = entries ?fs hm (length h) i (n - 1)" .
  }
  show "\<And>m. 1 \<le> m \<Longrightarrow> m < n \<Longrightarrow>
           field_value E (?fs ! i) (lines ! m ! i) = Some (hm ! (length h + (m - 1)) ! i)"
  proof -
    fix m assume m: "1 \<le> m" "m < n"
    with n have k: "m - 1 < length (take (n - 1) (drop 1 lines))" by simp
    from m n have row: "take (n - 1) (drop 1 lines) ! (m - 1) = lines ! m" by simp
    from loaded_rows(3) [OF A(2) k i] show
      "field_value E (?fs ! i) (lines ! m ! i) = Some (hm ! (length h + (m - 1)) ! i)"
      unfolding row .
  qed
qed


lemma entries_mem:
  "k < m \<Longrightarrow> (key_at fs h (a0 + k) j, Ptr (a0 + k)) \<in> set (entries fs h a0 j m)"
  by (auto simp: entries_def)

lemma map_lookup_found:
  "(k', v) \<in> set m \<Longrightarrow> key_eq E k k' \<Longrightarrow> map_lookup E m k \<noteq> None"
  unfolding map_lookup_None_iff by blast

lemma field_value_coerce:
  "CanSet f \<Longrightarrow> field_value E f tok = Some v \<Longrightarrow> coerce E f (zero E (Type f)) tok = Inr v"
  by (auto simp: field_value_def split: sum.splits)

text \<open>Claim C4, as amended.  Let field \<open>i\<close> have the tag \<open>index\<close> and be settable
  (exported), and let the data rows \<open>m < n\<close> give it values that are equal as map
  keys.  Then the load does not succeed, and whatever \<open>Read\<close> returns, \<open>records\<close>
  and \<open>indexes\<close> are as before.  When the load comes to field \<open>i\<close> of row \<open>n\<close>
  (the rows before \<open>n\<close> are loaded, row \<open>n\<close> has the right length, its fields
  before \<open>i\<close> are passed) and the key can be hashed (every key of a bool, integer,
  float or string field can), the error returned is the DuplicateIndexError with
  row \<open>n\<close> and column \<open>i\<close>.\<close>

theorem DuplicateIndexError_at_second_occurrence:
  assumes rd: "ReadData E (set_defaults G rf) name = Inr lines"
    and t: "typeRecord rf = Some t" "SKind t = KStruct"
    and i: "i < length (Fields t)" and ix: "CanSet (Fields t ! i)" "Tag (Fields t ! i) = ''index''"
    and m: "1 \<le> m" "m < n" and n: "n < length lines"
    and vm: "field_value E (Fields t ! i) (lines ! m ! i) = Some vm"
    and vn: "field_value E (Fields t ! i) (lines ! n ! i) = Some vn"
    and eq: "key_eq E (Val (Type (Fields t ! i)) vn) (Val (Type (Fields t ! i)) vm)"
  shows "(\<forall>h' rf'. Read E G (h, rf) name \<noteq> Return ((h', rf'), None)) \<and>
         (\<forall>h' rf' e. Read E G (h, rf) name = Return ((h', rf'), e) \<longrightarrow>
            records rf' = records rf \<and> indexes rf' = indexes rf) \<and>
         (\<forall>sm h2 i2.
            after_rows E (Fields t) h lines (n - 1) = Continues sm \<longrightarrow>
            length (lines ! n) = length (Fields t) \<longrightarrow>
            after_fields E (Fields t) n (lines ! n) sm i = Continues (h2, i2) \<longrightarrow>
            hashable E (Val (Type (Fields t ! i)) vn) \<longrightarrow>
            (\<exists>h'. Read E G (h, rf) name =
                    Return ((h', set_defaults G rf), Some (DuplicateIndexError n i))))"
proof (intro conjI allI impI)
  let ?fs = "Fields t"
  let ?f = "?fs ! i"
  from ix have ixd: "indexed ?f" by (simp add: indexed_def)
  from m n have n1: "1 \<le> n" by simp
  have fails: "\<And>h' rf'. Read E G (h, rf) name \<noteq> Return ((h', rf'), None)"
  proof
    fix h' rf' assume ok: "Read E G (h, rf) name = Return ((h', rf'), None)"
    note L = Read_success_rows [OF ok rd t(1)]
    from m n have kn: "n - 1 < length (drop 1 lines)" and km: "m - 1 < length (drop 1 lines)"
      by simp_all
    from m n have rn: "drop 1 lines ! (n - 1) = lines ! n" and rm: "drop 1 lines ! (m - 1) = lines ! m"
      by simp_all
    from loaded_rows(3) [OF L kn i] vn have an: "h' ! (length h + (n - 1)) ! i = vn"
      unfolding rn by simp
    from loaded_rows(3) [OF L km i] vm have am: "h' ! (length h + (m - 1)) ! i = vm"
      unfolding rm by simp
    from loaded_slot(4) [OF L i ixd kn]
    have "map_lookup E (entries ?fs h' (length h) i (n - 1)) (key_at ?fs h' (length h + (n - 1)) i) = None"
      using map_lookup_append_None map_lookup_None_iff
      by (metis (no_types, lifting) Un_iff set_append)
    moreover from m have "(key_at ?fs h' (length h + (m - 1)) i, Ptr (length h + (m - 1)))
            \<in> set (entries ?fs h' (length h) i (n - 1))"
      by (intro entries_mem) arith
    ultimately have "\<not> key_eq E (key_at ?fs h' (length h + (n - 1)) i) (key_at ?fs h' (length h + (m - 1)) i)"
      unfolding map_lookup_None_iff by blast
    with eq an am show False by (simp add: key_at_def)
  qed
  then show "\<And>h' rf'. Read E G (h, rf) name \<noteq> Return ((h', rf'), None)" .
  show "\<And>h' rf' e. Read E G (h, rf) name = Return ((h', rf'), e) \<Longrightarrow> records rf' = records rf"
    by (rule Read_no_success_unchanged(1) [OF _ fails])
  show "\<And>h' rf' e. Read E G (h, rf) name = Return ((h', rf'), e) \<Longrightarrow> indexes rf' = indexes rf"
    by (rule Read_no_success_unchanged(2) [OF _ fails])
  fix sm h2 i2
  assume before: "after_rows E ?fs h lines (n - 1) = Continues sm"
    and len: "length (lines ! n) = length ?fs"
    and pre: "after_fields E ?fs n (lines ! n) sm i = Continues (h2, i2)"
    and hash: "hashable E (Val (Type ?f) vn)"
  obtain hm rm im where sm: "sm = (hm, rm, im)" by (cases sm)
  note R = Read_at_field [OF rd t n1 n before [unfolded sm] len i pre [unfolded sm]]
  from field_value_coerce [OF ix(1) vn] R(2)
  have co: "coerce E ?f (h2 ! length hm ! i) (lines ! n ! i) = Inr vn" by simp
  from R(5) [OF m] vm have "hm ! (length h + (m - 1)) ! i = vm" by simp
  then have km: "key_at ?fs hm (length h + (m - 1)) i = Val (Type ?f) vm" by (simp add: key_at_def)
  from m have "(key_at ?fs hm (length h + (m - 1)) i, Ptr (length h + (m - 1)))
            \<in> set (entries ?fs hm (length h) i (n - 1))"
    by (intro entries_mem) arith
  then have "(Val (Type ?f) vm, Ptr (length h + (m - 1))) \<in> set (i2 ! slot_of ?fs i)"
    unfolding km R(4) [OF ixd] .
  from map_lookup_found [OF this eq]
  have dup: "map_lookup E (i2 ! slot_of ?fs i) (Val (Type ?f) vn) \<noteq> None" .
  from field_step_index [OF ix(1) co ix(2), of n "Ptr (length hm)" "slot_of ?fs i" i2]
    R(3) [OF ixd] hash dup
  have "field_step E n (length hm) (Ptr (length hm)) (lines ! n) ?f i (slot_of ?fs i) (h2, i2)
          = Returns (DuplicateIndexError n i) (h2[length hm := (h2 ! length hm)[i := vn]], i2)"
    by simp
  from R(1) [OF this]
  show "\<exists>h'. Read E G (h, rf) name =
                Return ((h', set_defaults G rf), Some (DuplicateIndexError n i))"
    by blast
qed


lemma people_dup_ReadData_new:
  "ReadData (example_env people_dup) (set_defaults initial_globals (new_file person)) ''people.txt'' =
     Inr [[''Name'', ''Age''], [''alice'', ''30''], [''carol'', ''30'']]"
  unfolding people_dup_def by code_simp

lemmas loop_defs = start_def CanSet_def coerce_def zero_def Bits_def SetInt_def SetUint_def

text \<open>The theorem of claim C4 at the spec's variant with a duplicate: rows 1 and 2
  carry the age 30.\<close>

theorem DuplicateIndexError_at_second_occurrence_witness:
  "ReadData (example_env people_dup) (set_defaults initial_globals (new_file person)) ''people.txt'' =
     Inr [[''Name'', ''Age''], [''alice'', ''30''], [''carol'', ''30'']] \<and>
   CanSet (Fields person ! 1) \<and> Tag (Fields person ! 1) = ''index'' \<and>
   field_value (example_env people_dup) (Fields person ! 1) ''30'' = Some (PInt 30) \<and>
   (\<exists>h'. Read (example_env people_dup) initial_globals ([], new_file person) ''people.txt'' =
      Return ((h', set_defaults initial_globals (new_file person)), Some (DuplicateIndexError 2 1)))"
proof -
  let ?E = "example_env people_dup"
  let ?lines = "[[''Name'', ''Age''], [''alice'', ''30''], [''carol'', ''30'']]"
  let ?sm = "([[PString ''alice'', PInt 30]], [Ptr 0, Nil], [[(Val tInt (PInt 30), Ptr 0)]])
     :: (int, unit) heap \<times> (int, unit) iface list \<times> (int, unit) Index list"
  have t: "typeRecord (new_file person :: (int, unit) RecordFile) = Some person"
    by (simp add: new_file_def)
  have k: "SKind person = KStruct" by (simp add: person_def)
  have i: "1 < length (Fields person)" by (simp add: person_def)
  have ix: "CanSet (Fields person ! 1)" "Tag (Fields person ! 1) = ''index''"
    by (simp_all add: person_def CanSet_def)
  have v: "field_value ?E (Fields person ! 1) (?lines ! 1 ! 1) = Some (PInt 30)"
    "field_value ?E (Fields person ! 1) (?lines ! 2 ! 1) = Some (PInt 30)"
    by (simp_all add: field_value_def loop_defs example_defs TrimSpace_examples strconv_defs)
  have eq: "key_eq ?E (Val (Type (Fields person ! 1)) (PInt 30)) (Val (Type (Fields person ! 1)) (PInt 30))"
    by simp
  have b: "after_rows ?E (Fields person) [] ?lines (2 - 1) = Continues ?sm"
    by (simp add: after_rows_def loop_defs example_defs TrimSpace_examples strconv_defs)
  have l: "length (?lines ! 2) = length (Fields person)" by (simp add: person_def)
  have p: "after_fields ?E (Fields person) 2 (?lines ! 2) ?sm 1 =
      Continues ([[PString ''alice'', PInt 30], [PString ''carol'', PInt 0]],
                 [[(Val tInt (PInt 30), Ptr 0)]])"
    by (simp add: after_fields_def loop_defs example_defs)
  have hs: "hashable ?E (Val (Type (Fields person ! 1)) (PInt 30))" by simp
  from DuplicateIndexError_at_second_occurrence
         [OF people_dup_ReadData_new t k i ix _ _ _ v eq, where h = "[]"] b l p hs
  have "\<exists>h'. Read ?E initial_globals ([], new_file person) ''people.txt'' =
      Return ((h', set_defaults initial_globals (new_file person)), Some (DuplicateIndexError 2 1))"
    by simp
  with people_dup_ReadData_new ix v show ?thesis by simp
qed

subsection \<open>A struct with a field that cannot be set\<close>

text \<open>\<open>member\<close> is the struct \<open>{id int "index"; Name string}\<close> of a package
  \<open>main\<close>: its field \<open>id\<close> is not exported, so \<open>CanSet\<close> is false for it and the
  loop over the fields passes it over.  \<open>New\<close> accepts the struct.\<close>

definition member :: stype where
  "member =
     \<lparr>SKind = KStruct,
      Fields = [\<lparr>Name = ''id'', PkgPath = ''main'', Type = tInt, Tag = ''index''\<rparr>,
                \<lparr>Name = ''Name'', PkgPath = [], Type = tString, Tag = []\<rparr>]\<rparr>"

definition members :: string where
  "members = ''id~Name'' @ eol @ ''7~alice'' @ eol @ ''7~bob'' @ eol"

definition members_loaded :: "(int, unit) RecordFile" where
  "members_loaded =
     \<lparr>Comma = ''~'', Comment = ''#'', LineEndStr = eol, typeRecord = Some member,
      records = [Ptr 0, Ptr 1], indexes = [[]]\<rparr>"

lemma members_ReadData:
  "ReadData (example_env members) (set_defaults initial_globals (new_file member)) ''members.txt'' =
     Inr [[''id'', ''Name''], [''7'', ''alice''], [''7'', ''bob'']]"
  unfolding members_def by code_simp

lemma members_rows:
  "row_loop (example_env members) (Fields member) 1 [[''7'', ''alice''], [''7'', ''bob'']]
     (start (Fields member) [] [[''id'', ''Name''], [''7'', ''alice''], [''7'', ''bob'']]) =
   Continues ([[PInt 0, PString ''alice''], [PInt 0, PString ''bob'']], [Ptr 0, Ptr 1], [[]])"
  by (simp add: loop_defs member_def example_defs)

lemma members_Read:
  "Read (example_env members) initial_globals ([], new_file member) ''members.txt'' =
     Return (([[PInt 0, PString ''alice''], [PInt 0, PString ''bob'']], members_loaded), None)"
proof -
  have t: "typeRecord (new_file member :: (int, unit) RecordFile) = Some member"
    by (simp add: new_file_def)
  have k: "SKind member = KStruct" by (simp add: member_def)
  have "Read (example_env members) initial_globals ([], new_file member) ''members.txt'' =
     (case row_loop (example_env members) (Fields member) 1
             (drop 1 [[''id'', ''Name''], [''7'', ''alice''], [''7'', ''bob'']])
             (start (Fields member) [] [[''id'', ''Name''], [''7'', ''alice''], [''7'', ''bob'']]) of
        Panics \<Rightarrow> Panic
      | Returns err (h', recs', idxs') \<Rightarrow>
          Return ((h', set_defaults initial_globals (new_file member)), Some err)
      | Continues (h', recs', idxs') \<Rightarrow>
          Return ((h', (set_defaults initial_globals (new_file member))
                        \<lparr>records := recs', indexes := idxs'\<rparr>), None))"
    by (rule Read_rows [OF members_ReadData _ t k]) simp
  also have "drop 1 [[''id'', ''Name''], [''7'', ''alice''], [''7'', ''bob'']]
      = [[''7'', ''alice''], [''7'', ''bob'']]" by simp
  finally show ?thesis
    unfolding members_rows
    by (simp add: members_loaded_def set_defaults_def initial_globals_def new_file_def eol_def)
qed

lemma TrimSpace_7: "TrimSpace ''7'' = ''7''" by code_simp

text \<open>Claim C4 as stated fails for a field that is not exported: the two data rows of
  \<open>members\<close> carry the same token \<open>7\<close> (which parses to 7) for the field \<open>id\<close>
  with the tag \<open>index\<close>, and the load succeeds, with no DuplicateIndexError.\<close>

theorem equal_keys_in_unexported_field_load:
  "Tag (Fields member ! 0) = ''index'' \<and>
   ReadData (example_env members) (set_defaults initial_globals (new_file member)) ''members.txt'' =
     Inr [[''id'', ''Name''], [''7'', ''alice''], [''7'', ''bob'']] \<and>
   coerce (example_env members) (Fields member ! 0) (PInt 0) ''7'' = Inr (PInt 7) \<and>
   Read (example_env members) initial_globals ([], new_file member) ''members.txt'' =
     Return (([[PInt 0, PString ''alice''], [PInt 0, PString ''bob'']], members_loaded), None)"
proof -
  have "coerce (example_env members) (Fields member ! 0) (PInt 0) ''7'' = Inr (PInt 7)"
    by (simp add: loop_defs member_def example_defs TrimSpace_7 strconv_defs)
  with members_ReadData members_Read show ?thesis by (simp add: member_def)
qed

section \<open>Lookup in the indexes\<close>







text \<open>A key of a bool, integer or string field is equal to itself.\<close>

lemma key_eq_same:
  "(\<forall>x. p \<noteq> PFloat x) \<Longrightarrow> (\<forall>x. p \<noteq> PComp x) \<Longrightarrow> key_eq E (Val t p) (Val t p)"
  by (cases p) simp_all



end
